theory Spec2Isabelle
  imports Main "HOL-Library.AList" "HOL-Library.Product_Lexorder" "HOL-Library.List_Lexorder"
begin

section \<open>Variables and the object store\<close>

text \<open>
  tlm_adjoint/adjoint.py works on variables that it only knows through the interface
  functions \<^verbatim>\<open>var_id\<close>, \<^verbatim>\<open>var_space\<close>, \<^verbatim>\<open>var_space_type\<close>, \<^verbatim>\<open>var_copy\<close>,
  \<^verbatim>\<open>space_new\<close> and \<^verbatim>\<open>subtract_adjoint_derivative_action\<close>. A forward variable is
  the record of what the first three read. Variables created by the adjoint code are
  objects with identity: they live in a store, a list of cells, and a reference is the
  index of a cell. A new object is appended, so its reference is the length of the store
  before the allocation.
\<close>

datatype space_type = Primal | Conjugate | Dual | Conjugate_Dual

datatype error = ValueError | IndexError | KeyError | AssertionError

record variable =
  var_id :: nat
  var_space :: nat
  var_space_type :: space_type

type_synonym ref = nat

record 'a var_obj =
  vo_space :: nat
  vo_space_type :: space_type
  vo_value :: 'a

type_synonym 'a heap = "'a var_obj list"

text \<open>
  \<^verbatim>\<open>space_new(space, space_type=...)\<close>: a new variable of the space, with value zero.
\<close>

definition space_new :: "'a::zero heap \<Rightarrow> nat \<Rightarrow> space_type \<Rightarrow> ref \<times> 'a heap" where
  "space_new h sp st = (length h, h @ [\<lparr>vo_space = sp, vo_space_type = st, vo_value = 0\<rparr>])"

text \<open>\<^verbatim>\<open>var_copy(x)\<close>: a new variable holding what \<open>x\<close> holds.\<close>

definition var_copy :: "'a heap \<Rightarrow> ref \<Rightarrow> ref \<times> 'a heap" where
  "var_copy h r = (length h, h @ [h ! r])"

text \<open>
  \<^verbatim>\<open>subtract_adjoint_derivative_action(x, y)\<close> changes \<open>x\<close> in place; the term \<open>y\<close> is
  taken as the value it contributes.
\<close>

definition subtract_adjoint_derivative_action :: "'a::minus heap \<Rightarrow> ref \<Rightarrow> 'a \<Rightarrow> 'a heap" where
  "subtract_adjoint_derivative_action h r y = h[r := (h ! r)\<lparr>vo_value := vo_value (h ! r) - y\<rparr>]"

section \<open>AdjointRHS\<close>

text \<open>
  \<^verbatim>\<open>AdjointRHS.__init__\<close> stores the space of \<open>x\<close>, the space type of \<open>x\<close> relative to
  \<^verbatim>\<open>"conjugate_dual"\<close>, and \<^verbatim>\<open>_b = None\<close>. The function \<open>rst\<close> stands for
  \<^verbatim>\<open>var_space_type(x, rel_space_type=...)\<close>: it takes the space type of the variable and
  the relative space type.
\<close>

record adjoint_rhs =
  rhs_space :: nat
  rhs_space_type :: space_type
  rhs_b :: "ref option"

definition AdjointRHS :: "(space_type \<Rightarrow> space_type \<Rightarrow> space_type) \<Rightarrow> variable \<Rightarrow> adjoint_rhs" where
  "AdjointRHS rst x =
     \<lparr>rhs_space = var_space x, rhs_space_type = rst (var_space_type x) Conjugate_Dual, rhs_b = None\<rparr>"

text \<open>
  \<^verbatim>\<open>initialize\<close>: allocate \<^verbatim>\<open>_b\<close> if it is \<^verbatim>\<open>None\<close>. The model also returns the
  reference that \<^verbatim>\<open>_b\<close> holds afterwards.
\<close>

definition rhs_initialize :: "'a::zero heap \<times> adjoint_rhs \<Rightarrow> ref \<times> 'a heap \<times> adjoint_rhs" where
  "rhs_initialize s =
     (case rhs_b (snd s) of
        None \<Rightarrow>
          (let (a, h') = space_new (fst s) (rhs_space (snd s)) (rhs_space_type (snd s))
           in (a, h', (snd s)\<lparr>rhs_b := Some a\<rparr>))
      | Some a \<Rightarrow> (a, fst s, snd s))"

text \<open>\<^verbatim>\<open>b(copy)\<close>: the returned variable, then the store and the object.\<close>

definition rhs_b_call :: "bool \<Rightarrow> 'a::zero heap \<times> adjoint_rhs \<Rightarrow> ref \<times> 'a heap \<times> adjoint_rhs" where
  "rhs_b_call copy s =
     (let (a, h1, r1) = rhs_initialize s
      in if copy then (let (c, h2) = var_copy h1 a in (c, h2, r1)) else (a, h1, r1))"

definition rhs_sub :: "'a option \<Rightarrow> 'a::{zero,minus} heap \<times> adjoint_rhs \<Rightarrow> 'a heap \<times> adjoint_rhs" where
  "rhs_sub b s =
     (case b of
        None \<Rightarrow> s
      | Some y \<Rightarrow>
          (let (a, h1, r1) = rhs_initialize s
           in (subtract_adjoint_derivative_action h1 a y, r1)))"

definition rhs_is_empty :: "adjoint_rhs \<Rightarrow> bool" where
  "rhs_is_empty r = (rhs_b r = None)"

text \<open>A call of one of the four methods, and a sequence of calls on one object.\<close>

datatype 'a rhs_call = Call_b bool | Call_initialize | Call_sub "'a option" | Call_is_empty

fun rhs_step :: "'a rhs_call \<Rightarrow> 'a::{zero,minus} heap \<times> adjoint_rhs \<Rightarrow> 'a heap \<times> adjoint_rhs" where
  "rhs_step (Call_b copy) s = snd (rhs_b_call copy s)"
| "rhs_step Call_initialize s = snd (rhs_initialize s)"
| "rhs_step (Call_sub b) s = rhs_sub b s"
| "rhs_step Call_is_empty s = s"

definition rhs_run :: "'a rhs_call list \<Rightarrow> 'a::{zero,minus} heap \<times> adjoint_rhs \<Rightarrow> 'a heap \<times> adjoint_rhs" where
  "rhs_run calls s = fold rhs_step calls s"

text \<open>Whether a call is a \<^verbatim>\<open>sub\<close> with a term that is not \<^verbatim>\<open>None\<close>.\<close>

fun is_contribution :: "'a rhs_call \<Rightarrow> bool" where
  "is_contribution (Call_sub (Some y)) = True"
| "is_contribution c = False"

text \<open>Whether a call reaches \<^verbatim>\<open>initialize\<close>.\<close>

fun allocates :: "'a rhs_call \<Rightarrow> bool" where
  "allocates (Call_b copy) = True"
| "allocates Call_initialize = True"
| "allocates (Call_sub (Some y)) = True"
| "allocates (Call_sub None) = False"
| "allocates Call_is_empty = False"

section \<open>AdjointEquationRHS\<close>

text \<open>
  \<^verbatim>\<open>AdjointEquationRHS(eq)\<close> holds the tuple of one \<^verbatim>\<open>AdjointRHS\<close> for each variable
  in \<^verbatim>\<open>eq.X()\<close>. \<^verbatim>\<open>b\<close> unpacks the tuple with \<^verbatim>\<open>b, = self._B\<close>, which raises
  \<^verbatim>\<open>ValueError\<close> unless the tuple has one element. The methods return the result (or the
  error), the store and the tuple, which a raise leaves as they were.
\<close>

definition AdjointEquationRHS :: "(space_type \<Rightarrow> space_type \<Rightarrow> space_type) \<Rightarrow> variable list \<Rightarrow> adjoint_rhs list" where
  "AdjointEquationRHS rst X = map (AdjointRHS rst) X"

definition eqrhs_b :: "bool \<Rightarrow> 'a::zero heap \<times> adjoint_rhs list \<Rightarrow> (error + ref) \<times> 'a heap \<times> adjoint_rhs list" where
  "eqrhs_b copy s =
     (case snd s of
        [b] \<Rightarrow> (let (a, h', b') = rhs_b_call copy (fst s, b) in (Inr a, h', [b']))
      | _ \<Rightarrow> (Inl ValueError, fst s, snd s))"

fun eqrhs_B_loop :: "bool \<Rightarrow> 'a::zero heap \<Rightarrow> adjoint_rhs list \<Rightarrow> ref list \<times> 'a heap \<times> adjoint_rhs list" where
  "eqrhs_B_loop copy h [] = ([], h, [])"
| "eqrhs_B_loop copy h (b # bs) =
     (let (a, h1, b') = rhs_b_call copy (h, b);
          (as, h2, bs') = eqrhs_B_loop copy h1 bs
      in (a # as, h2, b' # bs'))"

definition eqrhs_B :: "bool \<Rightarrow> 'a::zero heap \<times> adjoint_rhs list \<Rightarrow> ref list \<times> 'a heap \<times> adjoint_rhs list" where
  "eqrhs_B copy s = eqrhs_B_loop copy (fst s) (snd s)"

definition eqrhs_is_empty :: "adjoint_rhs list \<Rightarrow> bool" where
  "eqrhs_is_empty B = list_all rhs_is_empty B"

section \<open>Equations, blocks and the tape\<close>

text \<open>
  An equation is known to adjoint.py through \<^verbatim>\<open>X()\<close>, \<^verbatim>\<open>dependencies()\<close>,
  \<^verbatim>\<open>adjoint_initial_condition_dependencies()\<close>, \<^verbatim>\<open>adj_X_type(m)\<close>, its class
  (\<^verbatim>\<open>isinstance\<close> against \<^verbatim>\<open>Instruction\<close>, \<^verbatim>\<open>ControlsMarker\<close> and
  \<^verbatim>\<open>FunctionalMarker\<close>), \<^verbatim>\<open>id\<close> and the two optional attributes
  \<^verbatim>\<open>_tlm_adjoint__tlm_root_id\<close> and \<^verbatim>\<open>_tlm_adjoint__tlm_key\<close>. A derivative key is
  a tuple, compared as Python compares tuples.
\<close>

datatype eq_class = Equation | Instruction | ControlsMarker | FunctionalMarker

type_synonym tlm_key = "nat list"

record equation =
  eq_X :: "variable list"
  eq_dependencies :: "variable list"
  eq_adjoint_initial_condition_dependencies :: "variable list"
  eq_adj_X_type :: "nat \<Rightarrow> space_type"
  eq_class :: eq_class
  eq_id :: nat
  eq_tlm_root_id :: "nat option"
  eq_tlm_key :: "tlm_key option"

text \<open>
  \<^verbatim>\<open>blocks\<close> is a \<^verbatim>\<open>Sequence\<close> of blocks, with the indices \<^verbatim>\<open>range(len(blocks))\<close>,
  or a \<^verbatim>\<open>Mapping\<close> from integers to blocks, with the indices \<^verbatim>\<open>sorted(blocks.keys())\<close>.
  A mapping is given by its items, looked up with \<^const>\<open>map_of\<close>.
\<close>

datatype blocks = Sequence "equation list list" | Mapping "(int \<times> equation list) list"

fun blocks_n :: "blocks \<Rightarrow> int list" where
  "blocks_n (Sequence bs) = map int [0..<length bs]"
| "blocks_n (Mapping al) = sort (remdups (map fst al))"

fun blocks_get :: "blocks \<Rightarrow> int \<Rightarrow> equation list" where
  "blocks_get (Sequence bs) n = bs ! nat n"
| "blocks_get (Mapping al) n = the (map_of al n)"

section \<open>AdjointBlockRHS and AdjointModelRHS\<close>

text \<open>
  \<^verbatim>\<open>AdjointBlockRHS(block)\<close> is the list of one \<^verbatim>\<open>AdjointEquationRHS\<close> for each
  equation. \<^verbatim>\<open>AdjointModelRHS\<close> holds the list \<^verbatim>\<open>_blocks_n\<close> and the dictionary
  \<^verbatim>\<open>_B\<close> from block index to \<^verbatim>\<open>AdjointBlockRHS\<close>, kept with its items in insertion
  order.
\<close>

type_synonym adjoint_block_rhs = "adjoint_rhs list list"

definition AdjointBlockRHS :: "(space_type \<Rightarrow> space_type \<Rightarrow> space_type) \<Rightarrow> equation list \<Rightarrow> adjoint_block_rhs" where
  "AdjointBlockRHS rst block = map (\<lambda>eq. AdjointEquationRHS rst (eq_X eq)) block"

definition blockrhs_is_empty :: "adjoint_block_rhs \<Rightarrow> bool" where
  "blockrhs_is_empty B = (length B = 0)"

text \<open>
  \<^verbatim>\<open>AdjointBlockRHS.pop\<close> returns \<^verbatim>\<open>len(self._B) - 1, self._B.pop()\<close>; the list
  \<^verbatim>\<open>pop\<close> raises \<^verbatim>\<open>IndexError\<close> on an empty list.
\<close>

definition blockrhs_pop :: "adjoint_block_rhs \<Rightarrow> error + ((nat \<times> adjoint_rhs list) \<times> adjoint_block_rhs)" where
  "blockrhs_pop B =
     (if B = [] then Inl IndexError else Inr ((length B - 1, last B), butlast B))"

record adjoint_model_rhs =
  mr_blocks_n :: "int list"
  mr_B :: "(int \<times> adjoint_block_rhs) list"

definition modelrhs_is_empty :: "adjoint_model_rhs \<Rightarrow> bool" where
  "modelrhs_is_empty s = (length (mr_B s) = 0)"

text \<open>
  \<^verbatim>\<open>_pop_empty\<close>: while \<^verbatim>\<open>_B\<close> has an item and the block at \<^verbatim>\<open>_blocks_n[-1]\<close> is
  empty, delete it. \<^verbatim>\<open>_blocks_n[-1]\<close> raises \<^verbatim>\<open>IndexError\<close> on an empty list and
  \<^verbatim>\<open>_B[n]\<close> raises \<^verbatim>\<open>KeyError\<close> on a missing key.
\<close>

function pop_empty :: "adjoint_model_rhs \<Rightarrow> error + adjoint_model_rhs" where
  "pop_empty s =
     (if length (mr_B s) > 0 then
        (if mr_blocks_n s = [] then Inl IndexError
         else (case map_of (mr_B s) (last (mr_blocks_n s)) of
                 None \<Rightarrow> Inl KeyError
               | Some blk \<Rightarrow>
                   if blockrhs_is_empty blk
                   then pop_empty \<lparr>mr_blocks_n = butlast (mr_blocks_n s),
                                   mr_B = AList.delete (last (mr_blocks_n s)) (mr_B s)\<rparr>
                   else Inr s))
      else Inr s)"
  by pat_completeness auto
termination
proof (relation "measure (\<lambda>s. length (mr_B s))")
  show "wf (measure (\<lambda>s. length (mr_B s)))" by simp
next
  fix s :: adjoint_model_rhs and blk
  assume "map_of (mr_B s) (last (mr_blocks_n s)) = Some blk"
  then have "(last (mr_blocks_n s), blk) \<in> set (mr_B s)" by (rule map_of_SomeD)
  then have "length (filter (\<lambda>(k, v). last (mr_blocks_n s) \<noteq> k) (mr_B s)) < length (mr_B s)"
    by (rule length_filter_less) simp
  then show "(\<lparr>mr_blocks_n = butlast (mr_blocks_n s),
               mr_B = AList.delete (last (mr_blocks_n s)) (mr_B s)\<rparr>, s)
             \<in> measure (\<lambda>s. length (mr_B s))"
    by (simp add: AList.delete_eq)
qed

declare pop_empty.simps [simp del]

definition AdjointModelRHS :: "(space_type \<Rightarrow> space_type \<Rightarrow> space_type) \<Rightarrow> blocks \<Rightarrow> error + adjoint_model_rhs" where
  "AdjointModelRHS rst blocks =
     pop_empty \<lparr>mr_blocks_n = blocks_n blocks,
                mr_B = map (\<lambda>n. (n, AdjointBlockRHS rst (blocks_get blocks n))) (blocks_n blocks)\<rparr>"

text \<open>
  \<^verbatim>\<open>AdjointModelRHS.pop\<close>: the last equation of the block at \<^verbatim>\<open>_blocks_n[-1]\<close> is
  removed from that block, then \<^verbatim>\<open>_pop_empty\<close> runs. The result is \<^verbatim>\<open>((n, i), B)\<close>
  and the object after the call.
\<close>

definition modelrhs_pop :: "adjoint_model_rhs \<Rightarrow> error + (((int \<times> nat) \<times> adjoint_rhs list) \<times> adjoint_model_rhs)" where
  "modelrhs_pop s =
     (if mr_blocks_n s = [] then Inl IndexError
      else (case map_of (mr_B s) (last (mr_blocks_n s)) of
              None \<Rightarrow> Inl KeyError
            | Some blk \<Rightarrow>
                (case blockrhs_pop blk of
                   Inl e \<Rightarrow> Inl e
                 | Inr ((i, B), blk') \<Rightarrow>
                     (case pop_empty (s\<lparr>mr_B := AList.update (last (mr_blocks_n s)) blk' (mr_B s)\<rparr>) of
                        Inl e \<Rightarrow> Inl e
                      | Inr s' \<Rightarrow> Inr (((last (mr_blocks_n s), i), B), s')))))"

text \<open>The object after \<open>k\<close> calls of \<^verbatim>\<open>pop\<close>.\<close>

fun modelrhs_pops :: "nat \<Rightarrow> adjoint_model_rhs \<Rightarrow> error + adjoint_model_rhs" where
  "modelrhs_pops 0 s = Inr s"
| "modelrhs_pops (Suc k) s =
     (case modelrhs_pop s of Inl e \<Rightarrow> Inl e | Inr (r, s') \<Rightarrow> modelrhs_pops k s')"

definition modelrhs_after :: "(space_type \<Rightarrow> space_type \<Rightarrow> space_type) \<Rightarrow> blocks \<Rightarrow> nat \<Rightarrow> error + adjoint_model_rhs" where
  "modelrhs_after rst blocks k =
     (case AdjointModelRHS rst blocks of Inl e \<Rightarrow> Inl e | Inr s \<Rightarrow> modelrhs_pops k s)"

text \<open>
  The last retained block, if one remains, is not empty: either \<^verbatim>\<open>_B\<close> has no item, or
  \<^verbatim>\<open>_B[_blocks_n[-1]]\<close> exists and \<^verbatim>\<open>is_empty()\<close> is false for it.
\<close>

definition last_block_not_empty :: "adjoint_model_rhs \<Rightarrow> bool" where
  "last_block_not_empty s =
     (modelrhs_is_empty s \<or>
      (mr_blocks_n s \<noteq> [] \<and>
       (case map_of (mr_B s) (last (mr_blocks_n s)) of
          None \<Rightarrow> False
        | Some blk \<Rightarrow> \<not> blockrhs_is_empty blk)))"

text \<open>
  What the constructor establishes and \<^verbatim>\<open>pop\<close> keeps: \<^verbatim>\<open>_blocks_n\<close> has no
  repetition and lists the keys of \<^verbatim>\<open>_B\<close>.
\<close>

definition modelrhs_wf :: "adjoint_model_rhs \<Rightarrow> bool" where
  "modelrhs_wf s = (distinct (mr_blocks_n s) \<and> map fst (mr_B s) = mr_blocks_n s)"

section \<open>TransposeComputationalGraph\<close>

text \<open>
  Loops whose body can raise: the first error ends the loop.
\<close>

fun fold_err :: "('a \<Rightarrow> 's \<Rightarrow> error + 's) \<Rightarrow> 'a list \<Rightarrow> 's \<Rightarrow> error + 's" where
  "fold_err f [] s = Inr s"
| "fold_err f (x # xs) s = (case f x s of Inl e \<Rightarrow> Inl e | Inr s' \<Rightarrow> fold_err f xs s')"

fun map_err :: "('a \<Rightarrow> error + 'b) \<Rightarrow> 'a list \<Rightarrow> error + 'b list" where
  "map_err f [] = Inr []"
| "map_err f (x # xs) =
     (case f x of
        Inl e \<Rightarrow> Inl e
      | Inr y \<Rightarrow> (case map_err f xs of Inl e \<Rightarrow> Inl e | Inr ys \<Rightarrow> Inr (y # ys)))"

text \<open>
  A slot is \<^verbatim>\<open>(n, i, j)\<close>: block index, equation index, index of a dependency or of an
  output. \<^verbatim>\<open>transpose_deps\<close> is read and written at such keys only (the items
  \<^verbatim>\<open>n: {}\<close> it starts with are never read), so it is a map from slots to slots.
  The flags \<^verbatim>\<open>{n: np.full(len(blocks[n]), ...)}\<close> are a map from block index to the
  list of the flags of the block; reading or writing \<^verbatim>\<open>flags[n][i]\<close> raises
  \<^verbatim>\<open>KeyError\<close> for a missing \<open>n\<close> and \<^verbatim>\<open>IndexError\<close> for \<open>i\<close> out of range.
\<close>

type_synonym slot = "int \<times> nat \<times> nat"

type_synonym flags = "int \<rightharpoonup> bool list"

definition flags_full :: "blocks \<Rightarrow> bool \<Rightarrow> flags" where
  "flags_full blocks v =
     map_of (map (\<lambda>n. (n, replicate (length (blocks_get blocks n)) v)) (blocks_n blocks))"

definition flags_get :: "flags \<Rightarrow> int \<Rightarrow> nat \<Rightarrow> error + bool" where
  "flags_get a n i =
     (case a n of
        None \<Rightarrow> Inl KeyError
      | Some bs \<Rightarrow> if i < length bs then Inr (bs ! i) else Inl IndexError)"

definition flags_set :: "flags \<Rightarrow> int \<Rightarrow> nat \<Rightarrow> bool \<Rightarrow> error + flags" where
  "flags_set a n i v =
     (case a n of
        None \<Rightarrow> Inl KeyError
      | Some bs \<Rightarrow> if i < length bs then Inr (a(n \<mapsto> bs[i := v])) else Inl IndexError)"

text \<open>
  The transpose computational graph (adjoint.py, lines 286 to 300). For each equation
  in tape order, first every output records its slot in \<^verbatim>\<open>last_eq\<close>, then every
  dependency whose id is in \<^verbatim>\<open>last_eq\<close> at a slot \<^verbatim>\<open>(p, k, m)\<close> with
  \<^verbatim>\<open>p < n or k < i\<close> gets the item \<^verbatim>\<open>(n, i, j): (p, k, m)\<close>.
\<close>

definition record_outputs :: "int \<Rightarrow> nat \<Rightarrow> variable list \<Rightarrow> (nat \<rightharpoonup> slot) \<Rightarrow> (nat \<rightharpoonup> slot)" where
  "record_outputs n i X last_eq =
     fold (\<lambda>(m, x) le. le(var_id x \<mapsto> (n, i, m))) (enumerate 0 X) last_eq"

definition link_dependencies :: "int \<Rightarrow> nat \<Rightarrow> variable list \<Rightarrow> (nat \<rightharpoonup> slot) \<Rightarrow> (slot \<rightharpoonup> slot) \<Rightarrow> (slot \<rightharpoonup> slot)" where
  "link_dependencies n i deps last_eq transpose_deps =
     fold (\<lambda>(j, dep) td.
             (case last_eq (var_id dep) of
                None \<Rightarrow> td
              | Some (p, k, m) \<Rightarrow> if p < n \<or> k < i then td((n, i, j) \<mapsto> (p, k, m)) else td))
          (enumerate 0 deps) transpose_deps"

definition transpose_eq :: "int \<Rightarrow> nat \<times> equation \<Rightarrow> (nat \<rightharpoonup> slot) \<times> (slot \<rightharpoonup> slot) \<Rightarrow> (nat \<rightharpoonup> slot) \<times> (slot \<rightharpoonup> slot)" where
  "transpose_eq n ie s =
     (let last_eq = record_outputs n (fst ie) (eq_X (snd ie)) (fst s)
      in (last_eq, link_dependencies n (fst ie) (eq_dependencies (snd ie)) last_eq (snd s)))"

definition transpose_block :: "blocks \<Rightarrow> int \<Rightarrow> (nat \<rightharpoonup> slot) \<times> (slot \<rightharpoonup> slot) \<Rightarrow> (nat \<rightharpoonup> slot) \<times> (slot \<rightharpoonup> slot)" where
  "transpose_block blocks n s = fold (transpose_eq n) (enumerate 0 (blocks_get blocks n)) s"

definition transpose_pass :: "blocks \<Rightarrow> (slot \<rightharpoonup> slot)" where
  "transpose_pass blocks = snd (fold (transpose_block blocks) (blocks_n blocks) (Map.empty, Map.empty))"

text \<open>
  The reverse traversal that adds the edges of adjoint initial conditions (lines 303 to
  324). \<^verbatim>\<open>dep_map\<close> maps the id of a dependency to its index, a later index replacing
  an earlier one; \<^verbatim>\<open>dep_map[x_id]\<close> raises \<^verbatim>\<open>KeyError\<close> when the output is not a
  dependency, and the \<^verbatim>\<open>assert\<close> raises \<^verbatim>\<open>AssertionError\<close>.
\<close>

definition dep_map :: "variable list \<Rightarrow> (nat \<rightharpoonup> nat)" where
  "dep_map deps = fold (\<lambda>(j, dep) dm. dm(var_id dep \<mapsto> j)) (enumerate 0 deps) Map.empty"

definition ics_output ::
  "(space_type \<Rightarrow> space_type \<Rightarrow> space_type) \<Rightarrow> int \<Rightarrow> nat \<Rightarrow> equation \<Rightarrow> nat \<times> variable \<Rightarrow>
   (nat \<rightharpoonup> space_type \<times> slot) \<times> (slot \<rightharpoonup> slot) \<Rightarrow> error + ((nat \<rightharpoonup> space_type \<times> slot) \<times> (slot \<rightharpoonup> slot))" where
  "ics_output rst p k eq mx s =
     (let m = fst mx; x = snd mx;
          adj_x_type = rst (var_space_type x) (eq_adj_X_type eq m);
          x_id = var_id x;
          linked =
            (if x_id \<in> set (map var_id (eq_adjoint_initial_condition_dependencies eq)) then
               (case fst s x_id of
                  None \<Rightarrow> Inr (snd s)
                | Some (adj_x_n_i_j_type, (n, i, j)) \<Rightarrow>
                    if adj_x_type = adj_x_n_i_j_type then
                      (if n > p \<or> (n = p \<and> i > k) then Inr ((snd s)((n, i, j) \<mapsto> (p, k, m)))
                       else Inl AssertionError)
                    else Inr (snd s))
             else Inr (snd s))
      in case linked of
           Inl e \<Rightarrow> Inl e
         | Inr tdi \<Rightarrow>
             (case dep_map (eq_dependencies eq) x_id of
                None \<Rightarrow> Inl KeyError
              | Some j \<Rightarrow> Inr ((fst s)(x_id \<mapsto> (adj_x_type, (p, k, j))), tdi)))"

definition ics_eq ::
  "(space_type \<Rightarrow> space_type \<Rightarrow> space_type) \<Rightarrow> int \<Rightarrow> nat \<times> equation \<Rightarrow>
   (nat \<rightharpoonup> space_type \<times> slot) \<times> (slot \<rightharpoonup> slot) \<Rightarrow> error + ((nat \<rightharpoonup> space_type \<times> slot) \<times> (slot \<rightharpoonup> slot))" where
  "ics_eq rst p ke s = fold_err (ics_output rst p (fst ke) (snd ke)) (enumerate 0 (eq_X (snd ke))) s"

definition ics_block ::
  "(space_type \<Rightarrow> space_type \<Rightarrow> space_type) \<Rightarrow> blocks \<Rightarrow> int \<Rightarrow>
   (nat \<rightharpoonup> space_type \<times> slot) \<times> (slot \<rightharpoonup> slot) \<Rightarrow> error + ((nat \<rightharpoonup> space_type \<times> slot) \<times> (slot \<rightharpoonup> slot))" where
  "ics_block rst blocks p s = fold_err (ics_eq rst p) (rev (enumerate 0 (blocks_get blocks p))) s"

definition ics_pass ::
  "(space_type \<Rightarrow> space_type \<Rightarrow> space_type) \<Rightarrow> blocks \<Rightarrow> (slot \<rightharpoonup> slot) \<Rightarrow> error + (slot \<rightharpoonup> slot)" where
  "ics_pass rst blocks transpose_deps =
     (case fold_err (ics_block rst blocks) (rev (blocks_n blocks)) (Map.empty, transpose_deps) of
        Inl e \<Rightarrow> Inl e
      | Inr s \<Rightarrow> Inr (snd s))"

text \<open>
  Forward pruning (lines 326 to 346). The inner loop over the dependencies stops at the
  first dependency whose edge in \<^verbatim>\<open>transpose_deps_ics\<close> points to an active equation.
\<close>

fun dependency_active :: "(slot \<rightharpoonup> slot) \<Rightarrow> flags \<Rightarrow> int \<Rightarrow> nat \<Rightarrow> (nat \<times> variable) list \<Rightarrow> error + bool" where
  "dependency_active tdi af n i [] = Inr False"
| "dependency_active tdi af n i (jd # rest) =
     (case tdi (n, i, fst jd) of
        None \<Rightarrow> dependency_active tdi af n i rest
      | Some (p, k, m) \<Rightarrow>
          (case flags_get af p k of
             Inl e \<Rightarrow> Inl e
           | Inr True \<Rightarrow> Inr True
           | Inr False \<Rightarrow> dependency_active tdi af n i rest))"

definition forward_eq :: "(slot \<rightharpoonup> slot) \<Rightarrow> int \<Rightarrow> nat \<times> equation \<Rightarrow> nat set \<times> flags \<Rightarrow> error + (nat set \<times> flags)" where
  "forward_eq tdi n ie s =
     (let i = fst ie; eq = snd ie in
      case (if eq_class eq = Instruction then flags_set (snd s) n i True else Inr (snd s)) of
        Inl e \<Rightarrow> Inl e
      | Inr af1 \<Rightarrow>
          (case (if fst s \<noteq> {} then
                   (if set (map var_id (eq_X eq)) \<inter> fst s \<noteq> {} then
                      (case flags_set af1 n i True of
                         Inl e \<Rightarrow> Inl e
                       | Inr af2 \<Rightarrow> Inr (fst s - set (map var_id (eq_X eq)), af2))
                    else Inr (fst s, af1))
                 else Inr (fst s, af1)) of
             Inl e \<Rightarrow> Inl e
           | Inr (active_M, af2) \<Rightarrow>
               (case flags_get af2 n i of
                  Inl e \<Rightarrow> Inl e
                | Inr True \<Rightarrow> Inr (active_M, af2)
                | Inr False \<Rightarrow>
                    (case dependency_active tdi af2 n i (enumerate 0 (eq_dependencies eq)) of
                       Inl e \<Rightarrow> Inl e
                     | Inr True \<Rightarrow>
                         (case flags_set af2 n i True of
                            Inl e \<Rightarrow> Inl e
                          | Inr af3 \<Rightarrow> Inr (active_M, af3))
                     | Inr False \<Rightarrow> Inr (active_M, af2)))))"

definition forward_block :: "blocks \<Rightarrow> (slot \<rightharpoonup> slot) \<Rightarrow> int \<Rightarrow> nat set \<times> flags \<Rightarrow> error + (nat set \<times> flags)" where
  "forward_block blocks tdi n s = fold_err (forward_eq tdi n) (enumerate 0 (blocks_get blocks n)) s"

definition forward_pass :: "blocks \<Rightarrow> variable list \<Rightarrow> (slot \<rightharpoonup> slot) \<Rightarrow> error + flags" where
  "forward_pass blocks M tdi =
     (case fold_err (forward_block blocks tdi) (blocks_n blocks)
             (set (map var_id M), flags_full blocks False) of
        Inl e \<Rightarrow> Inl e
      | Inr s \<Rightarrow> Inr (snd s))"

text \<open>
  Adjoint pruning for one functional (lines 355 to 376). The state is \<^verbatim>\<open>active_J\<close>,
  \<^verbatim>\<open>active_adjoint\<close> and \<^verbatim>\<open>active[J_i]\<close>.
\<close>

definition mark_producers :: "(slot \<rightharpoonup> slot) \<Rightarrow> int \<Rightarrow> nat \<Rightarrow> variable list \<Rightarrow> flags \<Rightarrow> error + flags" where
  "mark_producers td n i deps aa =
     fold_err (\<lambda>(j, dep) aa.
                 (case td (n, i, j) of
                    None \<Rightarrow> Inr aa
                  | Some (p, k, m) \<Rightarrow> flags_set aa p k True))
              (enumerate 0 deps) aa"

definition adjoint_eq :: "(slot \<rightharpoonup> slot) \<Rightarrow> nat \<Rightarrow> int \<Rightarrow> nat \<times> equation \<Rightarrow> bool \<times> flags \<times> flags \<Rightarrow> error + (bool \<times> flags \<times> flags)" where
  "adjoint_eq td J_id n ie s =
     (let i = fst ie; eq = snd ie; active_J = fst s; aa = fst (snd s); act = snd (snd s) in
      case (if active_J \<and> J_id \<in> set (map var_id (eq_X eq)) then
              (case flags_set aa n i True of Inl e \<Rightarrow> Inl e | Inr aa1 \<Rightarrow> Inr (False, aa1))
            else Inr (active_J, aa)) of
        Inl e \<Rightarrow> Inl e
      | Inr (active_J1, aa1) \<Rightarrow>
          (case flags_get aa1 n i of
             Inl e \<Rightarrow> Inl e
           | Inr True \<Rightarrow>
               (case mark_producers td n i (eq_dependencies eq) aa1 of
                  Inl e \<Rightarrow> Inl e
                | Inr aa2 \<Rightarrow> Inr (active_J1, aa2, act))
           | Inr False \<Rightarrow>
               (if eq_class eq \<noteq> Instruction then
                  (case flags_set act n i False of
                     Inl e \<Rightarrow> Inl e
                   | Inr act1 \<Rightarrow> Inr (active_J1, aa1, act1))
                else Inr (active_J1, aa1, act))))"

definition adjoint_block :: "blocks \<Rightarrow> (slot \<rightharpoonup> slot) \<Rightarrow> nat \<Rightarrow> int \<Rightarrow> bool \<times> flags \<times> flags \<Rightarrow> error + (bool \<times> flags \<times> flags)" where
  "adjoint_block blocks td J_id n s =
     fold_err (adjoint_eq td J_id n) (rev (enumerate 0 (blocks_get blocks n))) s"

definition adjoint_pass :: "blocks \<Rightarrow> (slot \<rightharpoonup> slot) \<Rightarrow> flags \<Rightarrow> variable \<Rightarrow> error + flags" where
  "adjoint_pass blocks td active_forward J =
     (case fold_err (adjoint_block blocks td (var_id J)) (rev (blocks_n blocks))
             (True, flags_full blocks False, active_forward) of
        Inl e \<Rightarrow> Inl e
      | Inr s \<Rightarrow> Inr (snd (snd s)))"

text \<open>
  The object: \<^verbatim>\<open>_transpose_deps\<close>, \<^verbatim>\<open>_active\<close> and \<^verbatim>\<open>_solved\<close>, the last two with one
  entry for each \<^verbatim>\<open>J_i\<close> in \<^verbatim>\<open>range(len(Js))\<close>. The last loop of the constructor
  (lines 380 to 402) fills \<^verbatim>\<open>_stored_adj_ics\<close> and \<^verbatim>\<open>_adj_ics\<close>; it cannot raise, it
  writes nothing else, and the methods below do not read the two fields, so they are
  left out.
\<close>

record transpose_graph =
  tcg_transpose_deps :: "slot \<rightharpoonup> slot"
  tcg_active :: "flags list"
  tcg_solved :: "flags list"

text \<open>
  \<^verbatim>\<open>active_forward\<close> (lines 302 to 349): the two passes of forward pruning, or every
  flag \<^verbatim>\<open>True\<close>.
\<close>

definition active_forward ::
  "(space_type \<Rightarrow> space_type \<Rightarrow> space_type) \<Rightarrow> variable list \<Rightarrow> blocks \<Rightarrow> (slot \<rightharpoonup> slot) \<Rightarrow> bool \<Rightarrow> error + flags" where
  "active_forward rst M blocks transpose_deps prune_forward =
     (if prune_forward then
        (case ics_pass rst blocks transpose_deps of
           Inl e \<Rightarrow> Inl e
         | Inr transpose_deps_ics \<Rightarrow> forward_pass blocks M transpose_deps_ics)
      else Inr (flags_full blocks True))"

definition TransposeComputationalGraph ::
  "(space_type \<Rightarrow> space_type \<Rightarrow> space_type) \<Rightarrow> variable list \<Rightarrow> variable list \<Rightarrow> blocks \<Rightarrow> bool \<Rightarrow> bool \<Rightarrow>
   error + transpose_graph" where
  "TransposeComputationalGraph rst Js M blocks prune_forward prune_adjoint =
     (let transpose_deps = transpose_pass blocks in
      case active_forward rst M blocks transpose_deps prune_forward of
        Inl e \<Rightarrow> Inl e
      | Inr af \<Rightarrow>
          (case (if prune_adjoint then map_err (adjoint_pass blocks transpose_deps af) Js
                 else Inr (replicate (length Js) af)) of
             Inl e \<Rightarrow> Inl e
           | Inr active \<Rightarrow>
               Inr \<lparr>tcg_transpose_deps = transpose_deps, tcg_active = active, tcg_solved = active\<rparr>))"

definition tcg_contains :: "transpose_graph \<Rightarrow> slot \<Rightarrow> bool" where
  "tcg_contains g key = (tcg_transpose_deps g key \<noteq> None)"

definition tcg_getitem :: "transpose_graph \<Rightarrow> slot \<Rightarrow> error + slot" where
  "tcg_getitem g key = (case tcg_transpose_deps g key of None \<Rightarrow> Inl KeyError | Some v \<Rightarrow> Inr v)"

definition is_active :: "transpose_graph \<Rightarrow> nat \<Rightarrow> int \<Rightarrow> nat \<Rightarrow> error + bool" where
  "is_active g J_i n i =
     (if J_i < length (tcg_active g) then flags_get (tcg_active g ! J_i) n i else Inl KeyError)"

definition is_solved :: "transpose_graph \<Rightarrow> nat \<Rightarrow> int \<Rightarrow> nat \<Rightarrow> error + bool" where
  "is_solved g J_i n i =
     (if J_i < length (tcg_solved g) then flags_get (tcg_solved g ! J_i) n i else Inl KeyError)"

definition set_not_solved :: "transpose_graph \<Rightarrow> nat \<Rightarrow> int \<Rightarrow> nat \<Rightarrow> error + transpose_graph" where
  "set_not_solved g J_i n i =
     (if J_i < length (tcg_solved g) then
        (case flags_set (tcg_solved g ! J_i) n i False of
           Inl e \<Rightarrow> Inl e
         | Inr a \<Rightarrow> Inr (g\<lparr>tcg_solved := (tcg_solved g)[J_i := a]\<rparr>))
      else Inl KeyError)"

text \<open>
  A sequence of \<^verbatim>\<open>set_not_solved\<close> calls; a call that raises leaves the object as it
  was.
\<close>

fun set_not_solved_calls :: "transpose_graph \<Rightarrow> (nat \<times> int \<times> nat) list \<Rightarrow> transpose_graph" where
  "set_not_solved_calls g [] = g"
| "set_not_solved_calls g ((J_i, n, i) # calls) =
     set_not_solved_calls (case set_not_solved g J_i n i of Inl e \<Rightarrow> g | Inr g' \<Rightarrow> g') calls"

text \<open>
  The tape: the equations with their positions \<^verbatim>\<open>(n, i)\<close>, in the order in which the
  constructor walks them.
\<close>

definition tape :: "blocks \<Rightarrow> ((int \<times> nat) \<times> equation) list" where
  "tape blocks =
     concat (map (\<lambda>n. map (\<lambda>(i, eq). ((n, i), eq)) (enumerate 0 (blocks_get blocks n)))
                 (blocks_n blocks))"

section \<open>Example equations\<close>

text \<open>An equation that solves for the variable \<open>v\<close>, used to run the model on tapes.\<close>

definition ex_var :: "nat \<Rightarrow> variable" where
  "ex_var v = \<lparr>var_id = v, var_space = 0, var_space_type = Primal\<rparr>"

definition ex_eq :: "nat \<Rightarrow> equation" where
  "ex_eq v = \<lparr>eq_X = [ex_var v],
     eq_dependencies = [ex_var v],
     eq_adjoint_initial_condition_dependencies = [],
     eq_adj_X_type = (\<lambda>m. Conjugate_Dual), eq_class = Equation, eq_id = v,
     eq_tlm_root_id = None, eq_tlm_key = None\<rparr>"

definition ex_eq2 :: "nat \<Rightarrow> nat list \<Rightarrow> nat list \<Rightarrow> equation" where
  "ex_eq2 e xs ds = \<lparr>eq_X = map ex_var xs,
     eq_dependencies = map ex_var ds,
     eq_adjoint_initial_condition_dependencies = [],
     eq_adj_X_type = (\<lambda>m. Conjugate_Dual), eq_class = Equation, eq_id = e,
     eq_tlm_root_id = None, eq_tlm_key = None\<rparr>"

text \<open>
  A tape of three blocks: \<open>x1\<close> from \<open>x0\<close>; \<open>x2\<close> from \<open>x1\<close> and \<open>x5\<close>
  from \<open>x4\<close>; \<open>x3\<close> from \<open>x2\<close>.
\<close>

definition ex_tape :: blocks where
  "ex_tape = Sequence [[ex_eq2 0 [1] [1, 0]], [ex_eq2 1 [2] [2, 1], ex_eq2 2 [5] [5, 4]], [ex_eq2 3 [3] [3, 2]]]"

section \<open>Invariants\<close>

text \<open>
  Whatever is solved is active: the two tables have the same length, and wherever
  \<^verbatim>\<open>is_solved\<close> returns \<^verbatim>\<open>True\<close>, \<^verbatim>\<open>is_active\<close> returns \<^verbatim>\<open>True\<close>.
\<close>

definition solved_below_active :: "transpose_graph \<Rightarrow> bool" where
  "solved_below_active g =
     (length (tcg_solved g) = length (tcg_active g) \<and>
      (\<forall>J_i n i. is_solved g J_i n i = Inr True \<longrightarrow> is_active g J_i n i = Inr True))"

section \<open>Tape order and producers\<close>

text \<open>
  Positions \<^verbatim>\<open>(n, i)\<close> are compared as Python compares tuples. The position of a slot
  \<^verbatim>\<open>(n, i, j)\<close> is \<^verbatim>\<open>(n, i)\<close>.
\<close>

definition slot_pos :: "slot \<Rightarrow> int \<times> nat" where
  "slot_pos s = (fst s, fst (snd s))"

text \<open>
  Output \<open>m\<close> of \<open>X\<close> holds the variable id \<open>v\<close> and no later output of \<open>X\<close> does.
\<close>

definition last_output_slot :: "variable list \<Rightarrow> nat \<Rightarrow> nat \<Rightarrow> bool" where
  "last_output_slot X m v =
     (m < length X \<and> var_id (X ! m) = v \<and>
      (\<forall>m'. m < m' \<and> m' < length X \<longrightarrow> var_id (X ! m') \<noteq> v))"

definition produces :: "equation \<Rightarrow> nat \<Rightarrow> bool" where
  "produces eq v = (v \<in> var_id ` set (eq_X eq))"

text \<open>
  The slot \<open>s\<close> is the most recent producer of the id \<open>v\<close> before the position
  \<open>pos\<close> on the tape \<open>T\<close>: the equation at the position of \<open>s\<close> is strictly earlier
  than \<open>pos\<close>, \<open>s\<close> is its last output that holds \<open>v\<close>, and no equation after it,
  up to and including the one at \<open>pos\<close>, produces \<open>v\<close>.
\<close>

definition most_recent_producer :: "((int \<times> nat) \<times> equation) list \<Rightarrow> int \<times> nat \<Rightarrow> nat \<Rightarrow> slot \<Rightarrow> bool" where
  "most_recent_producer T pos v s =
     (\<exists>eq'. (slot_pos s, eq') \<in> set T \<and> slot_pos s < pos
        \<and> last_output_slot (eq_X eq') (snd (snd s)) v
        \<and> (\<forall>q eq''. (q, eq'') \<in> set T \<and> slot_pos s < q \<and> q \<le> pos \<longrightarrow> \<not> produces eq'' v))"

text \<open>The first pass of the constructor, run over the tape as one list.\<close>

definition transpose_tape :: "((int \<times> nat) \<times> equation) list \<Rightarrow> (nat \<rightharpoonup> slot) \<times> (slot \<rightharpoonup> slot) \<Rightarrow> (nat \<rightharpoonup> slot) \<times> (slot \<rightharpoonup> slot)" where
  "transpose_tape T s = fold (\<lambda>pe. transpose_eq (fst (fst pe)) (snd (fst pe), snd pe)) T s"

text \<open>The slot \<open>s\<close> is the last producer of \<open>v\<close> on the whole of \<open>T\<close>.\<close>

definition latest_producer :: "((int \<times> nat) \<times> equation) list \<Rightarrow> nat \<Rightarrow> slot \<Rightarrow> bool" where
  "latest_producer T v s =
     (\<exists>eq'. (slot_pos s, eq') \<in> set T
        \<and> last_output_slot (eq_X eq') (snd (snd s)) v
        \<and> (\<forall>q eq''. (q, eq'') \<in> set T \<and> slot_pos s < q \<longrightarrow> \<not> produces eq'' v))"

text \<open>
  The dependency slot \<open>c\<close> is on the tape and \<open>s\<close> is the most recent producer of
  the variable it consumes.
\<close>

definition transpose_edge :: "((int \<times> nat) \<times> equation) list \<Rightarrow> slot \<Rightarrow> slot \<Rightarrow> bool" where
  "transpose_edge T c s =
     (\<exists>eq. (slot_pos c, eq) \<in> set T \<and> snd (snd c) < length (eq_dependencies eq)
        \<and> most_recent_producer T (slot_pos c) (var_id (eq_dependencies eq ! snd (snd c))) s)"

text \<open>
  A tape given as a mapping: block 3 solves for \<open>x1\<close> twice, block 7 solves for
  \<open>x2\<close> from \<open>x1\<close>.
\<close>

definition ex_shadow :: blocks where
  "ex_shadow = Mapping [(7, [ex_eq2 2 [2] [2, 1]]), (3, [ex_eq2 0 [1] [1, 0], ex_eq2 1 [1] [1, 0]])]"

section \<open>The forward dependency graph\<close>

text \<open>
  The equation at \<open>c\<close> depends on the equation at \<open>p\<close>: \<open>p\<close> is strictly earlier,
  \<open>c\<close> has a dependency whose id \<open>p\<close> produces, and no equation strictly between
  the two produces that id.
\<close>

definition depends_on :: "((int \<times> nat) \<times> equation) list \<Rightarrow> int \<times> nat \<Rightarrow> int \<times> nat \<Rightarrow> bool" where
  "depends_on T c p =
     (\<exists>eq eq' v. (c, eq) \<in> set T \<and> (p, eq') \<in> set T \<and> p < c
        \<and> v \<in> var_id ` set (eq_dependencies eq) \<and> produces eq' v
        \<and> (\<forall>q e. (q, e) \<in> set T \<and> p < q \<and> q < c \<longrightarrow> \<not> produces e v))"

text \<open>
  An equation is reachable from the controls with ids \<open>M\<close> when it produces one of
  them, or depends on a reachable equation.
\<close>

inductive reachable :: "((int \<times> nat) \<times> equation) list \<Rightarrow> nat set \<Rightarrow> int \<times> nat \<Rightarrow> bool"
  for T :: "((int \<times> nat) \<times> equation) list" and M :: "nat set" where
  control: "(c, eq) \<in> set T \<Longrightarrow> v \<in> M \<Longrightarrow> produces eq v \<Longrightarrow> reachable T M c"
| dependency: "depends_on T c p \<Longrightarrow> reachable T M p \<Longrightarrow> reachable T M c"

section \<open>Invariants of the pruning passes\<close>

text \<open>The flags have one list for each block index, of the length of the block.\<close>

definition flags_shape :: "blocks \<Rightarrow> flags \<Rightarrow> bool" where
  "flags_shape blocks a =
     (dom a = set (blocks_n blocks) \<and>
      (\<forall>n bs. a n = Some bs \<longrightarrow> length bs = length (blocks_get blocks n)))"

text \<open>In the state of adjoint pruning, \<^verbatim>\<open>active[J_i]\<close> has the shape of the tape and is true only where \<^verbatim>\<open>active_forward\<close> is.\<close>

definition below_forward :: "blocks \<Rightarrow> flags \<Rightarrow> bool \<times> flags \<times> flags \<Rightarrow> bool" where
  "below_forward blocks af s =
     (flags_shape blocks (snd (snd s)) \<and>
      (\<forall>n i. flags_get (snd (snd s)) n i = Inr True \<longrightarrow> flags_get af n i = Inr True))"

text \<open>Every edge of a map of edges goes from an equation to one it depends on, and that one has an output.\<close>

definition edges_sound :: "((int \<times> nat) \<times> equation) list \<Rightarrow> (slot \<rightharpoonup> slot) \<Rightarrow> bool" where
  "edges_sound T tdi =
     (\<forall>c s. tdi c = Some s \<longrightarrow>
        depends_on T (slot_pos c) (slot_pos s) \<and> (\<exists>eq'. (slot_pos s, eq') \<in> set T \<and> eq_X eq' \<noteq> []))"

text \<open>In the state of forward pruning, \<^verbatim>\<open>active_M\<close> holds controls only, and an equation marked active is an instruction or is reachable from the controls.\<close>

definition forward_sound :: "blocks \<Rightarrow> nat set \<Rightarrow> nat set \<times> flags \<Rightarrow> bool" where
  "forward_sound blocks M s =
     (fst s \<subseteq> M \<and> flags_shape blocks (snd s) \<and>
      (\<forall>n i eq. ((n, i), eq) \<in> set (tape blocks) \<and> flags_get (snd s) n i = Inr True \<longrightarrow>
         eq_class eq = Instruction \<or> reachable (tape blocks) M (n, i)))"

text \<open>The slot \<open>c\<close> is a dependency holding \<open>v\<close> of the earliest equation of \<open>L\<close> that produces \<open>v\<close>.\<close>

definition earliest_producer :: "((int \<times> nat) \<times> equation) list \<Rightarrow> nat \<Rightarrow> slot \<Rightarrow> bool" where
  "earliest_producer L v c =
     (\<exists>eq. (slot_pos c, eq) \<in> set L \<and> produces eq v
        \<and> snd (snd c) < length (eq_dependencies eq)
        \<and> var_id (eq_dependencies eq ! snd (snd c)) = v
        \<and> (\<forall>q e. (q, e) \<in> set L \<and> q < slot_pos c \<longrightarrow> \<not> produces e v))"

text \<open>The equation at the position of the slot \<open>s\<close> has an output.\<close>

definition target_outputs :: "((int \<times> nat) \<times> equation) list \<Rightarrow> slot \<Rightarrow> bool" where
  "target_outputs L s = (\<exists>eq'. (slot_pos s, eq') \<in> set L \<and> eq_X eq' \<noteq> [])"

text \<open>The reverse traversal of the constructor, run over a list of equations with their positions.\<close>

definition ics_tape ::
  "(space_type \<Rightarrow> space_type \<Rightarrow> space_type) \<Rightarrow> ((int \<times> nat) \<times> equation) list \<Rightarrow>
   (nat \<rightharpoonup> space_type \<times> slot) \<times> (slot \<rightharpoonup> slot) \<Rightarrow> error + ((nat \<rightharpoonup> space_type \<times> slot) \<times> (slot \<rightharpoonup> slot))" where
  "ics_tape rst L s = fold_err (\<lambda>pe. ics_eq rst (fst (fst pe)) (snd (fst pe), snd pe)) L s"

text \<open>What the reverse traversal keeps, after the equations of \<open>L\<close>: \<^verbatim>\<open>last_eq\<close> holds earliest producers, and an edge is one of \<^verbatim>\<open>transpose_deps\<close> or a dependency.\<close>

definition ics_inv :: "((int \<times> nat) \<times> equation) list \<Rightarrow> (slot \<rightharpoonup> slot) \<Rightarrow>
   (nat \<rightharpoonup> space_type \<times> slot) \<times> (slot \<rightharpoonup> slot) \<Rightarrow> bool" where
  "ics_inv L td0 s =
     ((\<forall>v t c. fst s v = Some (t, c) \<longrightarrow> earliest_producer L v c)
      \<and> (\<forall>c s'. snd s c = Some s' \<longrightarrow>
            td0 c = Some s' \<or> (depends_on L (slot_pos c) (slot_pos s') \<and> target_outputs L s')))"

text \<open>The same inside the loop over the outputs of one equation, after the outputs \<open>Xs\<close>.\<close>

definition ics_partial :: "((int \<times> nat) \<times> equation) list \<Rightarrow> (slot \<rightharpoonup> slot) \<Rightarrow> int \<times> nat \<Rightarrow> equation \<Rightarrow>
   variable list \<Rightarrow> (nat \<rightharpoonup> space_type \<times> slot) \<times> (slot \<rightharpoonup> slot) \<Rightarrow> bool" where
  "ics_partial L td0 pos eq0 Xs s =
     ((\<forall>v t c. fst s v = Some (t, c) \<longrightarrow>
         (if v \<in> var_id ` set Xs
          then slot_pos c = pos \<and> snd (snd c) < length (eq_dependencies eq0)
               \<and> var_id (eq_dependencies eq0 ! snd (snd c)) = v
          else earliest_producer L v c))
      \<and> (\<forall>c s'. snd s c = Some s' \<longrightarrow>
            td0 c = Some s' \<or> (depends_on L (slot_pos c) (slot_pos s') \<and> target_outputs L s')
            \<or> (slot_pos s' = pos \<and> snd (snd s') < length Xs
                \<and> earliest_producer L (var_id (Xs ! snd (snd s'))) c)))"

text \<open>
  A tape with an instruction: \<open>x1\<close> from \<open>x0\<close>, an instruction, \<open>x2\<close> from
  \<open>x1\<close>, and \<open>x5\<close> from \<open>x4\<close>.
\<close>

definition ex_instruction :: equation where
  "ex_instruction = \<lparr>eq_X = [], eq_dependencies = [],
     eq_adjoint_initial_condition_dependencies = [],
     eq_adj_X_type = (\<lambda>m. Conjugate_Dual), eq_class = Instruction, eq_id = 9,
     eq_tlm_root_id = None, eq_tlm_key = None\<rparr>"

definition ex_prune :: blocks where
  "ex_prune = Sequence [[ex_eq2 0 [1] [1, 0], ex_instruction], [ex_eq2 1 [2] [2, 1], ex_eq2 2 [5] [5, 4]]]"

section \<open>Properties of AdjointRHS\<close>

lemma rhs_initialize_b: "rhs_b (snd (snd (rhs_initialize s))) = Some (fst (rhs_initialize s))"
  by (simp add: rhs_initialize_def space_new_def split: option.splits)

lemma rhs_initialize_keeps:
  "rhs_b (snd s) = Some a \<Longrightarrow> rhs_initialize s = (a, fst s, snd s)"
  by (simp add: rhs_initialize_def)

lemma rhs_step_keeps_b:
  "rhs_b (snd s) = Some a \<Longrightarrow> rhs_b (snd (rhs_step c s)) = Some a"
proof (cases c)
  case (Call_b copy)
  assume "rhs_b (snd s) = Some a"
  then show ?thesis
    using Call_b by (cases s; cases copy) (simp_all add: rhs_b_call_def rhs_initialize_keeps var_copy_def)
next
  case Call_initialize
  assume "rhs_b (snd s) = Some a"
  then show ?thesis using Call_initialize by (simp add: rhs_initialize_keeps)
next
  case (Call_sub b)
  assume "rhs_b (snd s) = Some a"
  then show ?thesis
    using Call_sub by (cases b) (simp_all add: rhs_sub_def rhs_initialize_keeps case_prod_beta)
next
  case Call_is_empty
  assume "rhs_b (snd s) = Some a"
  then show ?thesis using Call_is_empty by simp
qed

lemma rhs_run_keeps_b:
  "rhs_b (snd s) = Some a \<Longrightarrow> rhs_b (snd (rhs_run calls s)) = Some a"
  unfolding rhs_run_def
  by (induction calls arbitrary: s) (simp_all add: rhs_step_keeps_b)

lemma rhs_step_allocates:
  "allocates c \<Longrightarrow> rhs_b (snd (rhs_step c s)) \<noteq> None"
proof (cases c)
  case (Call_b copy)
  have "rhs_b (snd (snd (rhs_b_call copy s))) = Some (fst (rhs_initialize s))"
    using rhs_initialize_b [of s]
    by (cases "rhs_initialize s") (simp add: rhs_b_call_def var_copy_def)
  then show ?thesis using Call_b by simp
next
  case Call_initialize
  then show ?thesis using rhs_initialize_b [of s] by simp
next
  case (Call_sub b)
  assume "allocates c"
  then obtain y where b: "b = Some y" using Call_sub by (cases b) simp_all
  have "rhs_b (snd (rhs_sub (Some y) s)) = Some (fst (rhs_initialize s))"
    using rhs_initialize_b [of s]
    by (cases "rhs_initialize s") (simp add: rhs_sub_def)
  then show ?thesis using Call_sub b by simp
next
  case Call_is_empty
  assume "allocates c"
  then show ?thesis using Call_is_empty by simp
qed

lemma rhs_step_no_alloc:
  "\<not> allocates c \<Longrightarrow> rhs_step c s = s"
  by (cases c rule: allocates.cases) (simp_all add: rhs_sub_def)

lemma rhs_run_empty_iff:
  "rhs_b (snd s) = None \<Longrightarrow>
   (rhs_b (snd (rhs_run calls s)) = None) = (\<not> list_ex allocates calls)"
proof (induction calls arbitrary: s)
  case Nil
  then show ?case by (simp add: rhs_run_def)
next
  case (Cons c calls)
  show ?case
  proof (cases "allocates c")
    case True
    then obtain a where a: "rhs_b (snd (rhs_step c s)) = Some a"
      using rhs_step_allocates [of c s] by auto
    have "rhs_b (snd (rhs_run calls (rhs_step c s))) = Some a"
      using a by (rule rhs_run_keeps_b)
    then show ?thesis using True by (simp add: rhs_run_def)
  next
    case False
    then have "rhs_step c s = s" by (rule rhs_step_no_alloc)
    then show ?thesis using False Cons by (simp add: rhs_run_def)
  qed
qed

lemma rhs_step_heap_grows: "length (fst s) \<le> length (fst (rhs_step c s))"
proof (cases c)
  case (Call_b copy)
  then show ?thesis
    by (cases s; cases copy)
       (simp_all add: rhs_b_call_def rhs_initialize_def space_new_def var_copy_def
          split: option.splits)
next
  case Call_initialize
  then show ?thesis
    by (cases s) (simp add: rhs_initialize_def space_new_def split: option.splits)
next
  case (Call_sub b)
  then show ?thesis
    by (cases s; cases b)
       (simp_all add: rhs_sub_def rhs_initialize_def space_new_def
          subtract_adjoint_derivative_action_def split: option.splits)
next
  case Call_is_empty
  then show ?thesis by simp
qed

lemma rhs_run_heap_grows: "length (fst s) \<le> length (fst (rhs_run calls s))"
  unfolding rhs_run_def
proof (induction calls arbitrary: s)
  case Nil
  then show ?case by simp
next
  case (Cons c calls)
  have "length (fst s) \<le> length (fst (rhs_step c s))" by (rule rhs_step_heap_grows)
  also have "\<dots> \<le> length (fst (fold rhs_step calls (rhs_step c s)))" by (rule Cons.IH)
  finally show ?case by simp
qed

lemma rhs_run_sub_None: "rhs_run (replicate n (Call_sub None)) s = s"
  unfolding rhs_run_def by (induction n) (simp_all add: rhs_sub_def)

lemma rhs_sub_Some_fresh:
  "rhs_sub (Some y) (h, AdjointRHS rst x) =
     (h @ [\<lparr>vo_space = var_space x, vo_space_type = rst (var_space_type x) Conjugate_Dual,
             vo_value = 0 - y\<rparr>],
      (AdjointRHS rst x)\<lparr>rhs_b := Some (length h)\<rparr>)"
  by (simp add: rhs_sub_def rhs_initialize_def AdjointRHS_def space_new_def
      subtract_adjoint_derivative_action_def)

lemma rhs_b_call_False_at:
  "rhs_b (snd s) = Some a \<Longrightarrow> rhs_b_call False s = (a, fst s, snd s)"
  by (simp add: rhs_b_call_def rhs_initialize_keeps)

lemma rhs_b_call_True_at:
  "rhs_b (snd s) = Some a \<Longrightarrow>
   rhs_b_call True s = (length (fst s), fst s @ [fst s ! a], snd s)"
  by (simp add: rhs_b_call_def rhs_initialize_keeps var_copy_def case_prod_beta)

section \<open>Claim C5\<close>

text \<open>
  C5, as the code has it: after any sequence of calls on a new \<^verbatim>\<open>AdjointRHS\<close>,
  \<^verbatim>\<open>is_empty()\<close> is true if and only if no call of the sequence reached
  \<^verbatim>\<open>initialize\<close>, that is, if and only if the sequence holds no \<^verbatim>\<open>sub\<close> with a term
  that is not \<^verbatim>\<open>None\<close>, no \<^verbatim>\<open>b\<close> and no \<^verbatim>\<open>initialize\<close>. Any number of
  \<^verbatim>\<open>sub(None)\<close> and \<^verbatim>\<open>is_empty()\<close> calls leaves it true.
\<close>

theorem AdjointRHS_is_empty_iff_not_allocated:
  "rhs_is_empty (snd (rhs_run calls (h, AdjointRHS rst x))) = (\<not> list_ex allocates calls)"
proof -
  have "rhs_b (snd (h, AdjointRHS rst x)) = None" by (simp add: AdjointRHS_def)
  then show ?thesis unfolding rhs_is_empty_def by (rule rhs_run_empty_iff)
qed

theorem AdjointRHS_is_empty_iff_not_allocated_witness:
  "rhs_is_empty (snd (rhs_run [Call_sub None, Call_is_empty, Call_sub None]
     ([] :: int heap, AdjointRHS (\<lambda>a b. b) \<lparr>var_id = 0, var_space = 0, var_space_type = Primal\<rparr>)))
   \<and> \<not> rhs_is_empty (snd (rhs_run [Call_sub None, Call_sub (Some 2)]
     ([] :: int heap, AdjointRHS (\<lambda>a b. b) \<lparr>var_id = 0, var_space = 0, var_space_type = Primal\<rparr>)))"
  using AdjointRHS_is_empty_iff_not_allocated
          [of "[Call_sub None, Call_is_empty, Call_sub None]" "[] :: int heap" "\<lambda>a b. b"
              "\<lparr>var_id = 0, var_space = 0, var_space_type = Primal\<rparr>"]
        AdjointRHS_is_empty_iff_not_allocated
          [of "[Call_sub None, Call_sub (Some 2)]" "[] :: int heap" "\<lambda>a b. b"
              "\<lparr>var_id = 0, var_space = 0, var_space_type = Primal\<rparr>"]
  by simp

text \<open>
  C5 as it is written fails: after a single \<^verbatim>\<open>b()\<close> no term has been subtracted, and
  \<^verbatim>\<open>is_empty()\<close> is false.
\<close>

theorem AdjointRHS_is_empty_counterexample:
  "rhs_is_empty (snd (rhs_run [Call_b False]
     ([] :: int heap, AdjointRHS (\<lambda>a b. b) \<lparr>var_id = 0, var_space = 0, var_space_type = Primal\<rparr>)))
   \<noteq> (\<not> list_ex is_contribution [Call_b False :: int rhs_call])"
  by (simp add: rhs_run_def rhs_b_call_def rhs_initialize_def AdjointRHS_def space_new_def
      rhs_is_empty_def)

section \<open>Claim C6\<close>

text \<open>
  C6: on a new \<^verbatim>\<open>AdjointRHS\<close>, any number of \<^verbatim>\<open>sub(None)\<close> calls leaves
  \<^verbatim>\<open>is_empty()\<close> true. The first \<^verbatim>\<open>sub\<close> with a term \<open>y\<close> that is not \<^verbatim>\<open>None\<close>
  allocates one new variable, which holds \<open>0 - y\<close>, and \<^verbatim>\<open>is_empty()\<close> is false
  afterwards. After any further calls, \<^verbatim>\<open>b(copy=False)\<close> returns that same variable and
  changes nothing, and \<^verbatim>\<open>b(copy=True)\<close> returns a new variable, different from it, that
  holds what it holds.
\<close>

theorem AdjointRHS_accumulation:
  "rhs_is_empty (snd (rhs_run (replicate n (Call_sub None)) (h, AdjointRHS rst x)))
   \<and> \<not> rhs_is_empty (snd (rhs_sub (Some y) (rhs_run (replicate n (Call_sub None)) (h, AdjointRHS rst x))))
   \<and> fst (rhs_sub (Some y) (rhs_run (replicate n (Call_sub None)) (h, AdjointRHS rst x))) =
       h @ [\<lparr>vo_space = var_space x, vo_space_type = rst (var_space_type x) Conjugate_Dual,
              vo_value = 0 - y\<rparr>]
   \<and> (let s3 = rhs_run calls (rhs_sub (Some y) (rhs_run (replicate n (Call_sub None)) (h, AdjointRHS rst x)))
      in rhs_b_call False s3 = (length h, fst s3, snd s3)
         \<and> fst (rhs_b_call True s3) = length (fst s3)
         \<and> fst (rhs_b_call True s3) \<noteq> length h
         \<and> fst (snd (rhs_b_call True s3)) ! fst (rhs_b_call True s3) = fst s3 ! length h
         \<and> snd (snd (rhs_b_call True s3)) = snd s3)"
proof -
  let ?s0 = "(h, AdjointRHS rst x)"
  let ?s2 = "rhs_sub (Some y) ?s0"
  let ?s3 = "rhs_run calls ?s2"
  have b2: "rhs_b (snd ?s2) = Some (length h)" by (simp add: rhs_sub_Some_fresh)
  have b3: "rhs_b (snd ?s3) = Some (length h)" using b2 by (rule rhs_run_keeps_b)
  have "length (fst ?s2) \<le> length (fst ?s3)" by (rule rhs_run_heap_grows)
  then have len: "length h < length (fst ?s3)" by (simp add: rhs_sub_Some_fresh)
  have e1: "rhs_is_empty (snd ?s0)" by (simp add: rhs_is_empty_def AdjointRHS_def)
  have e2: "\<not> rhs_is_empty (snd ?s2)" using b2 by (simp add: rhs_is_empty_def)
  have f: "rhs_b_call False ?s3 = (length h, fst ?s3, snd ?s3)"
    using b3 by (rule rhs_b_call_False_at)
  have t: "rhs_b_call True ?s3 = (length (fst ?s3), fst ?s3 @ [fst ?s3 ! length h], snd ?s3)"
    using b3 by (rule rhs_b_call_True_at)
  show ?thesis
    unfolding rhs_run_sub_None Let_def
    using e1 e2 f t len by (simp add: rhs_sub_Some_fresh)
qed

section \<open>Claim C10\<close>

text \<open>
  C10: \<^verbatim>\<open>AdjointEquationRHS(eq)\<close> has one child for each output of \<open>eq\<close>. When it has
  exactly one child, \<^verbatim>\<open>b(copy)\<close> returns what the child's \<^verbatim>\<open>b(copy)\<close> returns, with the
  child's effect on the store and on the child. With no child or more than one,
  \<^verbatim>\<open>b(copy)\<close> raises \<^verbatim>\<open>ValueError\<close> and the store and every child are as before.
  \<^verbatim>\<open>B(copy)\<close> returns one variable for each child, whatever their number, and with
  \<^verbatim>\<open>copy=False\<close> they are the children's own variables.
\<close>

lemma eqrhs_B_loop_length:
  "length (fst (eqrhs_B_loop copy h B)) = length B
   \<and> length (snd (snd (eqrhs_B_loop copy h B))) = length B"
  by (induction B arbitrary: h) (simp_all add: case_prod_beta Let_def)

lemma rhs_b_call_False_b:
  "rhs_b (snd (snd (rhs_b_call False s))) = Some (fst (rhs_b_call False s))"
  using rhs_initialize_b [of s] by (simp add: rhs_b_call_def case_prod_beta)

lemma eqrhs_B_loop_False_refs:
  "map rhs_b (snd (snd (eqrhs_B_loop False h B))) = map Some (fst (eqrhs_B_loop False h B))"
  by (induction B arbitrary: h) (simp_all add: case_prod_beta Let_def rhs_b_call_False_b)

theorem AdjointEquationRHS_b_single_output:
  "length (AdjointEquationRHS rst X) = length X
   \<and> (\<forall>b. B = [b] \<longrightarrow>
        eqrhs_b copy (h, B) =
          (Inr (fst (rhs_b_call copy (h, b))), fst (snd (rhs_b_call copy (h, b))),
           [snd (snd (rhs_b_call copy (h, b)))]))
   \<and> (length B \<noteq> 1 \<longrightarrow> eqrhs_b copy (h, B) = (Inl ValueError, h, B))
   \<and> length (fst (eqrhs_B copy (h, B))) = length B
   \<and> length (snd (snd (eqrhs_B copy (h, B)))) = length B
   \<and> map rhs_b (snd (snd (eqrhs_B False (h, B)))) = map Some (fst (eqrhs_B False (h, B)))"
proof -
  have one: "\<forall>b. B = [b] \<longrightarrow>
        eqrhs_b copy (h, B) =
          (Inr (fst (rhs_b_call copy (h, b))), fst (snd (rhs_b_call copy (h, b))),
           [snd (snd (rhs_b_call copy (h, b)))])"
    by (simp add: eqrhs_b_def case_prod_beta)
  have other: "length B \<noteq> 1 \<longrightarrow> eqrhs_b copy (h, B) = (Inl ValueError, h, B)"
    by (simp add: eqrhs_b_def split: list.splits)
  show ?thesis
    using one other eqrhs_B_loop_length [of copy h B] eqrhs_B_loop_False_refs [of h B]
    by (simp add: AdjointEquationRHS_def eqrhs_B_def)
qed

theorem AdjointEquationRHS_b_single_output_witness:
  "eqrhs_b False ([] :: int heap,
      AdjointEquationRHS (\<lambda>a b. b) [\<lparr>var_id = 0, var_space = 0, var_space_type = Primal\<rparr>]) =
     (Inr 0, [\<lparr>vo_space = 0, vo_space_type = Conjugate_Dual, vo_value = 0\<rparr>],
      [\<lparr>rhs_space = 0, rhs_space_type = Conjugate_Dual, rhs_b = Some 0\<rparr>])
   \<and> eqrhs_b False ([] :: int heap, AdjointEquationRHS (\<lambda>a b. b) []) = (Inl ValueError, [], [])
   \<and> eqrhs_b True ([] :: int heap,
        AdjointEquationRHS (\<lambda>a b. b)
          [\<lparr>var_id = 0, var_space = 0, var_space_type = Primal\<rparr>,
           \<lparr>var_id = 1, var_space = 0, var_space_type = Primal\<rparr>]) =
       (Inl ValueError, [],
        [\<lparr>rhs_space = 0, rhs_space_type = Conjugate_Dual, rhs_b = None\<rparr>,
         \<lparr>rhs_space = 0, rhs_space_type = Conjugate_Dual, rhs_b = None\<rparr>])"
  using AdjointEquationRHS_b_single_output
          [of "\<lambda>a b. b" "[]" "AdjointEquationRHS (\<lambda>a b. b) [\<lparr>var_id = 0, var_space = 0, var_space_type = Primal\<rparr>]"
              False "[] :: int heap"]
        AdjointEquationRHS_b_single_output
          [of "\<lambda>a b. b" "[]" "AdjointEquationRHS (\<lambda>a b. b) []" False "[] :: int heap"]
        AdjointEquationRHS_b_single_output
          [of "\<lambda>a b. b" "[]" "AdjointEquationRHS (\<lambda>a b. b)
              [\<lparr>var_id = 0, var_space = 0, var_space_type = Primal\<rparr>,
               \<lparr>var_id = 1, var_space = 0, var_space_type = Primal\<rparr>]" True "[] :: int heap"]
  by (simp add: AdjointEquationRHS_def AdjointRHS_def rhs_b_call_def rhs_initialize_def
      space_new_def)

section \<open>Properties of AdjointModelRHS\<close>

lemma delete_last_key:
  "distinct (map fst B) \<Longrightarrow> B \<noteq> [] \<Longrightarrow>
   map fst (AList.delete (last (map fst B)) B) = butlast (map fst B)"
proof (induction B)
  case Nil
  then show ?case by simp
next
  case (Cons kv B)
  show ?case
  proof (cases "B = []")
    case True
    then show ?thesis by (cases kv) (simp add: AList.delete_eq)
  next
    case False
    then have "last (map fst (kv # B)) = last (map fst B)" by simp
    moreover have "last (map fst B) \<in> set (map fst B)" using False by (intro last_in_set) simp
    then have "fst kv \<noteq> last (map fst B)" using Cons.prems(1) by force
    ultimately show ?thesis
      using Cons False by (cases kv) (simp add: AList.delete_eq)
  qed
qed

lemma pop_empty_post: "pop_empty s = Inr s' \<Longrightarrow> last_block_not_empty s'"
proof (induction s rule: pop_empty.induct)
  case (1 s)
  show ?case
  proof (cases "length (mr_B s) > 0")
    case False
    then show ?thesis using "1.prems" by (simp add: pop_empty.simps [of s] last_block_not_empty_def modelrhs_is_empty_def)
  next
    case True
    note nonempty = True
    show ?thesis
    proof (cases "mr_blocks_n s = []")
      case True
      then show ?thesis using "1.prems" nonempty by (simp add: pop_empty.simps [of s])
    next
      case False
      note ns = False
      show ?thesis
      proof (cases "map_of (mr_B s) (last (mr_blocks_n s))")
        case None
        then show ?thesis using "1.prems" nonempty ns by (simp add: pop_empty.simps [of s])
      next
        case (Some blk)
        show ?thesis
        proof (cases "blockrhs_is_empty blk")
          case True
          then show ?thesis using "1.IH" [OF nonempty ns Some True] "1.prems" nonempty ns Some
            by (simp add: pop_empty.simps [of s])
        next
          case False
          then have "s' = s" using "1.prems" nonempty ns Some by (simp add: pop_empty.simps [of s])
          then show ?thesis using False ns Some by (simp add: last_block_not_empty_def)
        qed
      qed
    qed
  qed
qed

lemma pop_empty_total: "modelrhs_wf s \<Longrightarrow> \<exists>s'. pop_empty s = Inr s' \<and> modelrhs_wf s'"
proof (induction s rule: pop_empty.induct)
  case (1 s)
  show ?case
  proof (cases "length (mr_B s) > 0")
    case False
    then show ?thesis using "1.prems" by (simp add: pop_empty.simps [of s])
  next
    case True
    note nonempty = True
    have keys: "map fst (mr_B s) = mr_blocks_n s" and dist: "distinct (mr_blocks_n s)"
      using "1.prems" by (simp_all add: modelrhs_wf_def)
    have ns: "mr_blocks_n s \<noteq> []" using nonempty keys by auto
    then have "last (mr_blocks_n s) \<in> fst ` set (mr_B s)" using keys
      by (metis last_in_set list.set_map)
    then obtain blk where Some: "map_of (mr_B s) (last (mr_blocks_n s)) = Some blk"
      by (metis domD dom_map_of_conv_image_fst)
    show ?thesis
    proof (cases "blockrhs_is_empty blk")
      case True
      let ?s1 = "\<lparr>mr_blocks_n = butlast (mr_blocks_n s),
                   mr_B = AList.delete (last (mr_blocks_n s)) (mr_B s)\<rparr>"
      have "map fst (AList.delete (last (map fst (mr_B s))) (mr_B s)) = butlast (map fst (mr_B s))"
        using dist keys nonempty by (intro delete_last_key) auto
      then have "modelrhs_wf ?s1" using keys dist by (simp add: modelrhs_wf_def distinct_butlast)
      then show ?thesis using "1.IH" [OF nonempty ns Some True] nonempty ns Some True
        by (simp add: pop_empty.simps [of s])
    next
      case False
      then show ?thesis using "1.prems" nonempty ns Some by (simp add: pop_empty.simps [of s])
    qed
  qed
qed


lemma blocks_n_distinct: "distinct (blocks_n blocks)"
  by (cases blocks) (simp_all add: distinct_map inj_on_def)

lemma AdjointModelRHS_total:
  "\<exists>s. AdjointModelRHS rst blocks = Inr s \<and> modelrhs_wf s \<and> last_block_not_empty s"
proof -
  let ?s0 = "\<lparr>mr_blocks_n = blocks_n blocks,
      mr_B = map (\<lambda>n. (n, AdjointBlockRHS rst (blocks_get blocks n))) (blocks_n blocks)\<rparr>"
  have "modelrhs_wf ?s0" by (simp add: modelrhs_wf_def blocks_n_distinct comp_def)
  then obtain s where "pop_empty ?s0 = Inr s" "modelrhs_wf s" using pop_empty_total by blast
  then show ?thesis using pop_empty_post [of ?s0 s] by (simp add: AdjointModelRHS_def)
qed

lemma modelrhs_pop_total:
  assumes wf: "modelrhs_wf s" and inv: "last_block_not_empty s" and ne: "\<not> modelrhs_is_empty s"
  shows "\<exists>r s'. modelrhs_pop s = Inr (r, s') \<and> modelrhs_wf s' \<and> last_block_not_empty s'"
proof -
  from inv ne obtain blk where ns: "mr_blocks_n s \<noteq> []"
    and Some: "map_of (mr_B s) (last (mr_blocks_n s)) = Some blk"
    and blk: "blk \<noteq> []"
    by (auto simp: last_block_not_empty_def blockrhs_is_empty_def split: option.splits)
  let ?n = "last (mr_blocks_n s)"
  let ?s1 = "s\<lparr>mr_B := AList.update ?n (butlast blk) (mr_B s)\<rparr>"
  have "?n \<in> fst ` set (mr_B s)" using Some by (metis domI dom_map_of_conv_image_fst)
  then have "map fst (AList.update ?n (butlast blk) (mr_B s)) = map fst (mr_B s)"
    by (simp add: update_keys)
  then have "modelrhs_wf ?s1" using wf by (simp add: modelrhs_wf_def)
  then obtain s' where s': "pop_empty ?s1 = Inr s'" "modelrhs_wf s'"
    using pop_empty_total by blast
  have "last_block_not_empty s'" using s'(1) by (rule pop_empty_post)
  moreover have "modelrhs_pop s = Inr (((?n, length blk - 1), last blk), s')"
    using ns Some blk s'(1) by (simp add: modelrhs_pop_def blockrhs_pop_def)
  ultimately show ?thesis using s'(2) by blast
qed

lemma modelrhs_pop_post:
  "modelrhs_pop s = Inr (r, s') \<Longrightarrow> last_block_not_empty s'"
  by (auto simp: modelrhs_pop_def split: if_splits option.splits sum.splits prod.splits
      dest: pop_empty_post)

lemma modelrhs_pop_wf:
  assumes "modelrhs_wf s" and "modelrhs_pop s = Inr (r, s')"
  shows "modelrhs_wf s'"
proof -
  from assms(2) obtain blk blk' where Some: "map_of (mr_B s) (last (mr_blocks_n s)) = Some blk"
    and pe: "pop_empty (s\<lparr>mr_B := AList.update (last (mr_blocks_n s)) blk' (mr_B s)\<rparr>) = Inr s'"
    by (auto simp: modelrhs_pop_def split: if_splits option.splits sum.splits prod.splits)
  let ?n = "last (mr_blocks_n s)"
  have "?n \<in> fst ` set (mr_B s)" using Some by (metis domI dom_map_of_conv_image_fst)
  then have "map fst (AList.update ?n blk' (mr_B s)) = map fst (mr_B s)"
    by (simp add: update_keys)
  then have "modelrhs_wf (s\<lparr>mr_B := AList.update ?n blk' (mr_B s)\<rparr>)"
    using assms(1) by (simp add: modelrhs_wf_def)
  then show ?thesis using pop_empty_total pe by fastforce
qed

lemma modelrhs_pops_inv:
  "modelrhs_wf s \<Longrightarrow> last_block_not_empty s \<Longrightarrow> modelrhs_pops k s = Inr s' \<Longrightarrow>
   modelrhs_wf s' \<and> last_block_not_empty s'"
proof (induction k arbitrary: s)
  case 0
  then show ?case by simp
next
  case (Suc k)
  from Suc.prems(3) obtain r s1 where p: "modelrhs_pop s = Inr (r, s1)"
    and rest: "modelrhs_pops k s1 = Inr s'"
    by (auto split: sum.splits)
  have "modelrhs_wf s1" using Suc.prems(1) p by (rule modelrhs_pop_wf)
  moreover have "last_block_not_empty s1" using p by (rule modelrhs_pop_post)
  ultimately show ?case using Suc.IH rest by blast
qed

section \<open>Claim C3\<close>

text \<open>
  C3: the constructor of \<^verbatim>\<open>AdjointModelRHS\<close> returns for every \<^verbatim>\<open>blocks\<close>. In the
  object it returns, and in the object after any number of \<^verbatim>\<open>pop()\<close> calls that
  returned, the last retained block, if one remains, is not empty; and while a block
  remains the next \<^verbatim>\<open>pop()\<close> returns.
\<close>

theorem AdjointModelRHS_last_block_not_empty:
  "(\<exists>s. AdjointModelRHS rst blocks = Inr s)
   \<and> (\<forall>s. modelrhs_after rst blocks k = Inr s \<longrightarrow>
         last_block_not_empty s
         \<and> (\<not> modelrhs_is_empty s \<longrightarrow> (\<exists>r s'. modelrhs_pop s = Inr (r, s'))))"
proof -
  obtain s0 where s0: "AdjointModelRHS rst blocks = Inr s0" "modelrhs_wf s0" "last_block_not_empty s0"
    using AdjointModelRHS_total by blast
  have "last_block_not_empty s \<and> (\<not> modelrhs_is_empty s \<longrightarrow> (\<exists>r s'. modelrhs_pop s = Inr (r, s')))"
    if "modelrhs_after rst blocks k = Inr s" for s
  proof -
    have "modelrhs_pops k s0 = Inr s" using that s0(1) by (simp add: modelrhs_after_def)
    then have "modelrhs_wf s \<and> last_block_not_empty s"
      using s0(2,3) modelrhs_pops_inv by blast
    then show ?thesis using modelrhs_pop_total by blast
  qed
  then show ?thesis using s0(1) by blast
qed

theorem AdjointModelRHS_last_block_not_empty_witness:
  "modelrhs_after (\<lambda>a b. b) (Sequence [[ex_eq 0], [], [ex_eq 1, ex_eq 2], [], []]) 2 =
     Inr \<lparr>mr_blocks_n = [0],
          mr_B = [(0, [[\<lparr>rhs_space = 0, rhs_space_type = Conjugate_Dual, rhs_b = None\<rparr>]])]\<rparr>
   \<and> last_block_not_empty \<lparr>mr_blocks_n = [0],
          mr_B = [(0, [[\<lparr>rhs_space = 0, rhs_space_type = Conjugate_Dual, rhs_b = None\<rparr>]])]\<rparr>
   \<and> (\<exists>r s'. modelrhs_pop \<lparr>mr_blocks_n = [0],
          mr_B = [(0, [[\<lparr>rhs_space = 0, rhs_space_type = Conjugate_Dual, rhs_b = None\<rparr>]])]\<rparr>
        = Inr (r, s'))"
proof -
  let ?s = "\<lparr>mr_blocks_n = [0],
          mr_B = [(0, [[\<lparr>rhs_space = 0, rhs_space_type = Conjugate_Dual, rhs_b = None\<rparr>]])]\<rparr>"
  have ev: "modelrhs_after (\<lambda>a b. b) (Sequence [[ex_eq 0], [], [ex_eq 1, ex_eq 2], [], []]) 2 = Inr ?s"
    by code_simp
  have ne: "\<not> modelrhs_is_empty ?s" by (simp add: modelrhs_is_empty_def)
  show ?thesis
    using AdjointModelRHS_last_block_not_empty
            [of "\<lambda>a b. b" "Sequence [[ex_eq 0], [], [ex_eq 1, ex_eq 2], [], []]" 2] ev ne
    by blast
qed

section \<open>Properties of the flags\<close>

lemma flags_set_get:
  "flags_set a n i v = Inr a' \<Longrightarrow>
   flags_get a' n' i' = (if n' = n \<and> i' = i then Inr v else flags_get a n' i')"
  by (auto simp: flags_set_def flags_get_def split: option.splits if_splits)

lemma set_not_solved_keeps:
  assumes "solved_below_active g" and "set_not_solved g J_i n i = Inr g'"
  shows "solved_below_active g'"
proof -
  from assms(2) obtain a where J: "J_i < length (tcg_solved g)"
    and a: "flags_set (tcg_solved g ! J_i) n i False = Inr a"
    and g': "g' = g\<lparr>tcg_solved := (tcg_solved g)[J_i := a]\<rparr>"
    by (auto simp: set_not_solved_def split: if_splits sum.splits)
  have act: "is_active g' K m l = is_active g K m l" for K m l
    by (simp add: g' is_active_def)
  have sol: "is_solved g' K m l = Inr True \<Longrightarrow> is_solved g K m l = Inr True" for K m l
    using J flags_set_get [OF a, of m l]
    by (cases "K = J_i") (auto simp: g' is_solved_def split: if_splits)
  show ?thesis
    using assms(1) act sol by (simp add: solved_below_active_def g')
qed

lemma set_not_solved_calls_keeps:
  "solved_below_active g \<Longrightarrow> solved_below_active (set_not_solved_calls g calls)"
proof (induction calls arbitrary: g)
  case Nil
  then show ?case by simp
next
  case (Cons c calls)
  obtain J_i n i where c: "c = (J_i, n, i)" by (cases c)
  show ?case
  proof (cases "set_not_solved g J_i n i")
    case (Inl e)
    then show ?thesis using Cons c by simp
  next
    case (Inr g')
    then have "solved_below_active g'" using Cons.prems set_not_solved_keeps by blast
    then show ?thesis using Cons.IH Inr c by simp
  qed
qed

lemma TransposeComputationalGraph_solved:
  "TransposeComputationalGraph rst Js M blocks pf pa = Inr g \<Longrightarrow> tcg_solved g = tcg_active g"
  by (auto simp: TransposeComputationalGraph_def Let_def split: sum.splits if_splits)

section \<open>Claim C9\<close>

text \<open>
  C9: in the object that the constructor of \<^verbatim>\<open>TransposeComputationalGraph\<close> returns,
  and in that object after any sequence of \<^verbatim>\<open>set_not_solved\<close> calls, whenever
  \<^verbatim>\<open>is_solved(J_i, n, i)\<close> returns \<^verbatim>\<open>True\<close>, \<^verbatim>\<open>is_active(J_i, n, i)\<close> returns
  \<^verbatim>\<open>True\<close>.
\<close>

theorem solved_implies_active:
  assumes "TransposeComputationalGraph rst Js M blocks prune_forward prune_adjoint = Inr g"
    and "is_solved (set_not_solved_calls g calls) J_i n i = Inr True"
  shows "is_active (set_not_solved_calls g calls) J_i n i = Inr True"
proof -
  have "tcg_solved g = tcg_active g" using assms(1) by (rule TransposeComputationalGraph_solved)
  then have "solved_below_active g" by (simp add: solved_below_active_def is_solved_def is_active_def)
  then have "solved_below_active (set_not_solved_calls g calls)" by (rule set_not_solved_calls_keeps)
  then show ?thesis using assms(2) by (simp add: solved_below_active_def)
qed

theorem solved_implies_active_witness:
  "(case TransposeComputationalGraph (\<lambda>a b. b) [ex_var 3] [ex_var 1] ex_tape True True of
      Inl e \<Rightarrow> Inl e
    | Inr g \<Rightarrow> is_solved (set_not_solved_calls g [(0, 1, 0)]) 0 2 0) = Inr True
   \<and> (case TransposeComputationalGraph (\<lambda>a b. b) [ex_var 3] [ex_var 1] ex_tape True True of
      Inl e \<Rightarrow> Inl e
    | Inr g \<Rightarrow> is_active (set_not_solved_calls g [(0, 1, 0)]) 0 2 0) = Inr True"
proof -
  have ev: "(case TransposeComputationalGraph (\<lambda>a b. b) [ex_var 3] [ex_var 1] ex_tape True True of
      Inl e \<Rightarrow> Inl e
    | Inr g \<Rightarrow> is_solved (set_not_solved_calls g [(0, 1, 0)]) 0 2 0) = Inr True"
    by code_simp
  show ?thesis
  proof (cases "TransposeComputationalGraph (\<lambda>a b. b) [ex_var 3] [ex_var 1] ex_tape True True")
    case (Inl e)
    then show ?thesis using ev by simp
  next
    case (Inr g)
    then have "is_solved (set_not_solved_calls g [(0, 1, 0)]) 0 2 0 = Inr True" using ev by simp
    then have "is_active (set_not_solved_calls g [(0, 1, 0)]) 0 2 0 = Inr True"
      using solved_implies_active [OF Inr] by blast
    then show ?thesis using Inr ev by simp
  qed
qed

section \<open>The transpose pass\<close>

lemma record_outputs_snoc:
  "record_outputs n i (X @ [x]) le = (record_outputs n i X le)(var_id x \<mapsto> (n, i, length X))"
  by (simp add: record_outputs_def enumerate_append_eq)

lemma record_outputs_not_produced:
  "v \<notin> var_id ` set X \<Longrightarrow> record_outputs n i X le v = le v"
proof (induction X rule: rev_induct)
  case Nil
  show ?case by (simp add: record_outputs_def)
next
  case (snoc x X)
  then show ?case unfolding record_outputs_snoc by auto
qed

lemma last_output_slot_snoc:
  "last_output_slot (X @ [x]) m v =
     (if var_id x = v then m = length X else last_output_slot X m v)"
proof (cases "var_id x = v")
  case True
  show ?thesis
  proof (cases "m = length X")
    case True
    then show ?thesis using \<open>var_id x = v\<close> by (simp add: last_output_slot_def)
  next
    case False
    have "\<not> last_output_slot (X @ [x]) m v"
    proof
      assume a: "last_output_slot (X @ [x]) m v"
      then have "m < length X" using False by (simp add: last_output_slot_def)
      moreover have "var_id ((X @ [x]) ! length X) \<noteq> v"
        using a \<open>m < length X\<close> unfolding last_output_slot_def
        by (metis length_append_singleton lessI)
      ultimately show False using True by simp
    qed
    then show ?thesis using True False by simp
  qed
next
  case False
  have "last_output_slot (X @ [x]) m v = last_output_slot X m v"
  proof
    assume a: "last_output_slot (X @ [x]) m v"
    then have m: "m < length X" using False
      by (cases "m = length X") (auto simp: last_output_slot_def less_Suc_eq)
    show "last_output_slot X m v"
      unfolding last_output_slot_def
    proof (intro conjI allI impI)
      show "m < length X" by (rule m)
      show "var_id (X ! m) = v" using a m by (simp add: last_output_slot_def nth_append)
      fix m' assume "m < m' \<and> m' < length X"
      then have "var_id ((X @ [x]) ! m') \<noteq> v" using a by (simp add: last_output_slot_def)
      then show "var_id (X ! m') \<noteq> v" using \<open>m < m' \<and> m' < length X\<close> by (simp add: nth_append)
    qed
  next
    assume a: "last_output_slot X m v"
    show "last_output_slot (X @ [x]) m v"
      unfolding last_output_slot_def
    proof (intro conjI allI impI)
      show "m < length (X @ [x])" using a by (simp add: last_output_slot_def)
      show "var_id ((X @ [x]) ! m) = v" using a by (simp add: last_output_slot_def nth_append)
      fix m' assume b: "m < m' \<and> m' < length (X @ [x])"
      show "var_id ((X @ [x]) ! m') \<noteq> v"
      proof (cases "m' = length X")
        case True
        then show ?thesis using False by simp
      next
        case False
        then have "m' < length X" using b by simp
        then show ?thesis using a b by (simp add: last_output_slot_def nth_append)
      qed
    qed
  qed
  then show ?thesis using False by simp
qed


lemma record_outputs_Some:
  "record_outputs n i X le v = Some s \<longleftrightarrow>
     (\<exists>m. s = (n, i, m) \<and> last_output_slot X m v) \<or> (v \<notin> var_id ` set X \<and> le v = Some s)"
proof (induction X arbitrary: s rule: rev_induct)
  case Nil
  then show ?case by (simp add: record_outputs_def last_output_slot_def)
next
  case (snoc x X)
  show ?case
  proof (cases "var_id x = v")
    case True
    then show ?thesis
      unfolding record_outputs_snoc last_output_slot_snoc by auto
  next
    case False
    then have "record_outputs n i (X @ [x]) le v = record_outputs n i X le v"
      unfolding record_outputs_snoc by simp
    moreover have "(v \<notin> var_id ` set (X @ [x])) = (v \<notin> var_id ` set X)" using False by auto
    ultimately show ?thesis
      unfolding last_output_slot_snoc using snoc [of s] False by simp
  qed
qed


lemma link_dependencies_snoc:
  "link_dependencies n i (deps @ [d]) le td =
     (case le (var_id d) of
        None \<Rightarrow> link_dependencies n i deps le td
      | Some (p, k, m) \<Rightarrow>
          if p < n \<or> k < i then (link_dependencies n i deps le td)((n, i, length deps) \<mapsto> (p, k, m))
          else link_dependencies n i deps le td)"
  by (simp add: link_dependencies_def enumerate_append_eq split: option.splits)

lemma link_dependencies_other:
  "(n', i') \<noteq> (n, i) \<or> length deps \<le> j \<Longrightarrow> link_dependencies n i deps le td (n', i', j) = td (n', i', j)"
proof (induction deps rule: rev_induct)
  case Nil
  then show ?case by (simp add: link_dependencies_def)
next
  case (snoc d deps)
  then show ?case
    unfolding link_dependencies_snoc by (auto split: option.splits)
qed

lemma link_dependencies_at:
  "j < length deps \<Longrightarrow>
   link_dependencies n i deps le td (n, i, j) =
     (case le (var_id (deps ! j)) of
        None \<Rightarrow> td (n, i, j)
      | Some (p, k, m) \<Rightarrow> if p < n \<or> k < i then Some (p, k, m) else td (n, i, j))"
proof (induction deps rule: rev_induct)
  case Nil
  then show ?case by simp
next
  case (snoc d deps)
  show ?case
  proof (cases "j = length deps")
    case True
    have "link_dependencies n i deps le td (n, i, j) = td (n, i, j)"
      using True by (intro link_dependencies_other) simp
    then show ?thesis
      unfolding link_dependencies_snoc using True by (auto split: option.splits)
  next
    case False
    then have j: "j < length deps" using snoc.prems by simp
    then show ?thesis
      unfolding link_dependencies_snoc using snoc.IH False
      by (auto split: option.splits simp: nth_append)
  qed
qed


lemma latest_producer_position:
  "latest_producer T v s \<Longrightarrow> \<exists>e. (slot_pos s, e) \<in> set T"
  unfolding latest_producer_def by blast

lemma latest_producer_snoc:
  assumes bound: "\<forall>q e. (q, e) \<in> set T \<longrightarrow> q < pos"
  shows "latest_producer (T @ [(pos, eq)]) v s \<longleftrightarrow>
     (slot_pos s = pos \<and> last_output_slot (eq_X eq) (snd (snd s)) v)
     \<or> (\<not> produces eq v \<and> latest_producer T v s)"
proof
  assume "latest_producer (T @ [(pos, eq)]) v s"
  then obtain eq' where mem: "(slot_pos s, eq') \<in> set (T @ [(pos, eq)])"
    and slot: "last_output_slot (eq_X eq') (snd (snd s)) v"
    and later: "\<forall>q eq''. (q, eq'') \<in> set (T @ [(pos, eq)]) \<and> slot_pos s < q \<longrightarrow> \<not> produces eq'' v"
    unfolding latest_producer_def by blast
  show "(slot_pos s = pos \<and> last_output_slot (eq_X eq) (snd (snd s)) v)
     \<or> (\<not> produces eq v \<and> latest_producer T v s)"
  proof (cases "(slot_pos s, eq') \<in> set T")
    case True
    then have "slot_pos s < pos" using bound by blast
    moreover have "(pos, eq) \<in> set (T @ [(pos, eq)])" by simp
    ultimately have "\<not> produces eq v" using later by blast
    moreover have "latest_producer T v s"
      unfolding latest_producer_def using True slot later by auto
    ultimately show ?thesis by simp
  next
    case False
    then have "slot_pos s = pos \<and> eq' = eq" using mem by simp
    then show ?thesis using slot by simp
  qed
next
  assume a: "(slot_pos s = pos \<and> last_output_slot (eq_X eq) (snd (snd s)) v)
     \<or> (\<not> produces eq v \<and> latest_producer T v s)"
  show "latest_producer (T @ [(pos, eq)]) v s"
  proof (cases "slot_pos s = pos \<and> last_output_slot (eq_X eq) (snd (snd s)) v")
    case True
    have "\<not> produces eq'' v" if "(q, eq'') \<in> set (T @ [(pos, eq)]) \<and> slot_pos s < q" for q eq''
    proof -
      have "q \<le> pos"
      proof (cases "(q, eq'') \<in> set T")
        case True
        then have "q < pos" using bound by blast
        then show ?thesis by simp
      next
        case False
        then have "q = pos" using that by simp
        then show ?thesis by simp
      qed
      then show ?thesis using that True by (metis leD)
    qed
    then show ?thesis
      unfolding latest_producer_def using True by (intro exI [of _ eq]) auto
  next
    case False
    then have np: "\<not> produces eq v" and lp: "latest_producer T v s" using a by auto
    from lp obtain eq' where mem: "(slot_pos s, eq') \<in> set T"
      and slot: "last_output_slot (eq_X eq') (snd (snd s)) v"
      and later: "\<forall>q eq''. (q, eq'') \<in> set T \<and> slot_pos s < q \<longrightarrow> \<not> produces eq'' v"
      unfolding latest_producer_def by blast
    have "\<not> produces eq'' v" if "(q, eq'') \<in> set (T @ [(pos, eq)]) \<and> slot_pos s < q" for q eq''
    proof (cases "(q, eq'') \<in> set T")
      case True
      then show ?thesis using later that by blast
    next
      case False
      then have "eq'' = eq" using that by simp
      then show ?thesis using np by simp
    qed
    then show ?thesis
      unfolding latest_producer_def using mem slot by (intro exI [of _ eq']) auto
  qed
qed

lemma most_recent_producer_snoc_at:
  assumes bound: "\<forall>q e. (q, e) \<in> set T \<longrightarrow> q < pos"
  shows "most_recent_producer (T @ [(pos, eq)]) pos v s \<longleftrightarrow> \<not> produces eq v \<and> latest_producer T v s"
proof
  assume "most_recent_producer (T @ [(pos, eq)]) pos v s"
  then obtain eq' where mem: "(slot_pos s, eq') \<in> set (T @ [(pos, eq)])"
    and before: "slot_pos s < pos"
    and slot: "last_output_slot (eq_X eq') (snd (snd s)) v"
    and later: "\<forall>q eq''. (q, eq'') \<in> set (T @ [(pos, eq)]) \<and> slot_pos s < q \<and> q \<le> pos \<longrightarrow> \<not> produces eq'' v"
    unfolding most_recent_producer_def by blast
  have memT: "(slot_pos s, eq') \<in> set T" using mem before by auto
  have "(pos, eq) \<in> set (T @ [(pos, eq)]) \<and> pos \<le> pos" by simp
  then have "\<not> produces eq v" using later before by blast
  moreover have "\<not> produces eq'' v" if "(q, eq'') \<in> set T \<and> slot_pos s < q" for q eq''
  proof -
    have "q < pos" using that bound by blast
    then have "q \<le> pos" by simp
    moreover have "(q, eq'') \<in> set (T @ [(pos, eq)])" using that by simp
    ultimately show ?thesis using later that by blast
  qed
  then have "latest_producer T v s"
    unfolding latest_producer_def using memT slot by (intro exI [of _ eq']) auto
  ultimately show "\<not> produces eq v \<and> latest_producer T v s" by simp
next
  assume a: "\<not> produces eq v \<and> latest_producer T v s"
  then obtain eq' where mem: "(slot_pos s, eq') \<in> set T"
    and slot: "last_output_slot (eq_X eq') (snd (snd s)) v"
    and later: "\<forall>q eq''. (q, eq'') \<in> set T \<and> slot_pos s < q \<longrightarrow> \<not> produces eq'' v"
    unfolding latest_producer_def by blast
  have before: "slot_pos s < pos" using mem bound by blast
  have "\<not> produces eq'' v"
    if "(q, eq'') \<in> set (T @ [(pos, eq)]) \<and> slot_pos s < q \<and> q \<le> pos" for q eq''
  proof (cases "(q, eq'') \<in> set T")
    case True
    then show ?thesis using later that by blast
  next
    case False
    then have "eq'' = eq" using that by simp
    then show ?thesis using a by simp
  qed
  then show "most_recent_producer (T @ [(pos, eq)]) pos v s"
    unfolding most_recent_producer_def using mem slot before by (intro exI [of _ eq']) auto
qed

lemma most_recent_producer_snoc_other:
  assumes bound: "\<forall>q e. (q, e) \<in> set T \<longrightarrow> q < pos" and c: "c < pos"
  shows "most_recent_producer (T @ [(pos, eq)]) c v s \<longleftrightarrow> most_recent_producer T c v s"
proof
  assume "most_recent_producer (T @ [(pos, eq)]) c v s"
  then obtain eq' where mem: "(slot_pos s, eq') \<in> set (T @ [(pos, eq)])"
    and before: "slot_pos s < c"
    and slot: "last_output_slot (eq_X eq') (snd (snd s)) v"
    and later: "\<forall>q eq''. (q, eq'') \<in> set (T @ [(pos, eq)]) \<and> slot_pos s < q \<and> q \<le> c \<longrightarrow> \<not> produces eq'' v"
    unfolding most_recent_producer_def by blast
  have "slot_pos s \<noteq> pos" using before c by auto
  then have memT: "(slot_pos s, eq') \<in> set T" using mem by auto
  show "most_recent_producer T c v s"
    unfolding most_recent_producer_def using memT before slot later by (intro exI [of _ eq']) auto
next
  assume "most_recent_producer T c v s"
  then obtain eq' where mem: "(slot_pos s, eq') \<in> set T"
    and before: "slot_pos s < c"
    and slot: "last_output_slot (eq_X eq') (snd (snd s)) v"
    and later: "\<forall>q eq''. (q, eq'') \<in> set T \<and> slot_pos s < q \<and> q \<le> c \<longrightarrow> \<not> produces eq'' v"
    unfolding most_recent_producer_def by blast
  have "\<not> produces eq'' v"
    if "(q, eq'') \<in> set (T @ [(pos, eq)]) \<and> slot_pos s < q \<and> q \<le> c" for q eq''
  proof -
    have "q \<noteq> pos" using that c by auto
    then have "(q, eq'') \<in> set T" using that by auto
    then show ?thesis using later that by blast
  qed
  then show "most_recent_producer (T @ [(pos, eq)]) c v s"
    unfolding most_recent_producer_def using mem slot before by (intro exI [of _ eq']) auto
qed


lemma transpose_edge_absent:
  assumes bound: "\<forall>q e. (q, e) \<in> set T \<longrightarrow> q < pos" and c: "slot_pos c = pos"
  shows "\<not> transpose_edge T c s"
proof
  assume "transpose_edge T c s"
  then obtain eq0 where "(slot_pos c, eq0) \<in> set T" unfolding transpose_edge_def by blast
  then have "pos < pos" using bound c by blast
  then show False by simp
qed

lemma transpose_edge_snoc_other:
  assumes bound: "\<forall>q e. (q, e) \<in> set T \<longrightarrow> q < pos" and c: "slot_pos c \<noteq> pos"
  shows "transpose_edge (T @ [(pos, eq)]) c s \<longleftrightarrow> transpose_edge T c s"
proof
  assume "transpose_edge (T @ [(pos, eq)]) c s"
  then obtain eq0 where mem: "(slot_pos c, eq0) \<in> set (T @ [(pos, eq)])"
    and j: "snd (snd c) < length (eq_dependencies eq0)"
    and mrp: "most_recent_producer (T @ [(pos, eq)]) (slot_pos c) (var_id (eq_dependencies eq0 ! snd (snd c))) s"
    unfolding transpose_edge_def by blast
  have memT: "(slot_pos c, eq0) \<in> set T" using mem c by auto
  then have "slot_pos c < pos" using bound by blast
  then have "most_recent_producer T (slot_pos c) (var_id (eq_dependencies eq0 ! snd (snd c))) s"
    using mrp most_recent_producer_snoc_other [OF bound] by blast
  then show "transpose_edge T c s" unfolding transpose_edge_def using memT j by blast
next
  assume "transpose_edge T c s"
  then obtain eq0 where memT: "(slot_pos c, eq0) \<in> set T"
    and j: "snd (snd c) < length (eq_dependencies eq0)"
    and mrp: "most_recent_producer T (slot_pos c) (var_id (eq_dependencies eq0 ! snd (snd c))) s"
    unfolding transpose_edge_def by blast
  have "slot_pos c < pos" using memT bound by blast
  then have "most_recent_producer (T @ [(pos, eq)]) (slot_pos c) (var_id (eq_dependencies eq0 ! snd (snd c))) s"
    using mrp most_recent_producer_snoc_other [OF bound] by blast
  moreover have "(slot_pos c, eq0) \<in> set (T @ [(pos, eq)])" using memT by simp
  ultimately show "transpose_edge (T @ [(pos, eq)]) c s" unfolding transpose_edge_def using j by blast
qed

lemma transpose_edge_snoc_at:
  assumes bound: "\<forall>q e. (q, e) \<in> set T \<longrightarrow> q < pos" and c: "slot_pos c = pos"
  shows "transpose_edge (T @ [(pos, eq)]) c s \<longleftrightarrow>
     snd (snd c) < length (eq_dependencies eq)
     \<and> \<not> produces eq (var_id (eq_dependencies eq ! snd (snd c)))
     \<and> latest_producer T (var_id (eq_dependencies eq ! snd (snd c))) s"
proof
  assume "transpose_edge (T @ [(pos, eq)]) c s"
  then obtain eq0 where mem: "(slot_pos c, eq0) \<in> set (T @ [(pos, eq)])"
    and j: "snd (snd c) < length (eq_dependencies eq0)"
    and mrp: "most_recent_producer (T @ [(pos, eq)]) (slot_pos c) (var_id (eq_dependencies eq0 ! snd (snd c))) s"
    unfolding transpose_edge_def by blast
  have "(slot_pos c, eq0) \<notin> set T"
  proof
    assume "(slot_pos c, eq0) \<in> set T"
    then have "pos < pos" using bound c by blast
    then show False by simp
  qed
  then have "eq0 = eq" using mem by simp
  then show "snd (snd c) < length (eq_dependencies eq)
     \<and> \<not> produces eq (var_id (eq_dependencies eq ! snd (snd c)))
     \<and> latest_producer T (var_id (eq_dependencies eq ! snd (snd c))) s"
    using j mrp c most_recent_producer_snoc_at [OF bound] by blast
next
  assume a: "snd (snd c) < length (eq_dependencies eq)
     \<and> \<not> produces eq (var_id (eq_dependencies eq ! snd (snd c)))
     \<and> latest_producer T (var_id (eq_dependencies eq ! snd (snd c))) s"
  then have "most_recent_producer (T @ [(pos, eq)]) (slot_pos c) (var_id (eq_dependencies eq ! snd (snd c))) s"
    using c most_recent_producer_snoc_at [OF bound] by blast
  moreover have "(slot_pos c, eq) \<in> set (T @ [(pos, eq)])" using c by simp
  ultimately show "transpose_edge (T @ [(pos, eq)]) c s" unfolding transpose_edge_def using a by blast
qed

lemma transpose_tape_snoc:
  "transpose_tape (T @ [((n, i), eq)]) s0 =
     (record_outputs n i (eq_X eq) (fst (transpose_tape T s0)),
      link_dependencies n i (eq_dependencies eq)
        (record_outputs n i (eq_X eq) (fst (transpose_tape T s0))) (snd (transpose_tape T s0)))"
  by (simp add: transpose_tape_def transpose_eq_def Let_def)

lemma transpose_tape_inv:
  assumes "sorted_wrt (<) (map fst T)"
  shows "(\<forall>v s. fst (transpose_tape T (Map.empty, Map.empty)) v = Some s \<longleftrightarrow> latest_producer T v s)
       \<and> (\<forall>c s. snd (transpose_tape T (Map.empty, Map.empty)) c = Some s \<longleftrightarrow> transpose_edge T c s)"
  using assms
proof (induction T rule: rev_induct)
  case Nil
  show ?case by (simp add: transpose_tape_def latest_producer_def transpose_edge_def)
next
  case (snoc x T)
  obtain n i eq where x: "x = ((n, i), eq)" by (metis surj_pair)
  let ?le = "fst (transpose_tape T (Map.empty, Map.empty))"
  let ?td = "snd (transpose_tape T (Map.empty, Map.empty))"
  let ?le' = "record_outputs n i (eq_X eq) ?le"
  let ?td' = "link_dependencies n i (eq_dependencies eq) ?le' ?td"
  have sortedT: "sorted_wrt (<) (map fst T)" and bound: "\<forall>q e. (q, e) \<in> set T \<longrightarrow> q < (n, i)"
    using snoc.prems x by (auto simp: sorted_wrt_append)
  have IHle: "?le v = Some s \<longleftrightarrow> latest_producer T v s" for v s
    using snoc.IH [OF sortedT] by blast
  have IHtd: "?td c = Some s \<longleftrightarrow> transpose_edge T c s" for c s
    using snoc.IH [OF sortedT] by blast
  have le': "?le' v = Some s \<longleftrightarrow> latest_producer (T @ [((n, i), eq)]) v s" for v s
  proof -
    have "?le' v = Some s \<longleftrightarrow>
       (\<exists>m. s = (n, i, m) \<and> last_output_slot (eq_X eq) m v) \<or> (\<not> produces eq v \<and> latest_producer T v s)"
      unfolding record_outputs_Some IHle produces_def by simp
    also have "\<dots> \<longleftrightarrow> (slot_pos s = (n, i) \<and> last_output_slot (eq_X eq) (snd (snd s)) v)
       \<or> (\<not> produces eq v \<and> latest_producer T v s)"
      by (cases s) (auto simp: slot_pos_def)
    also have "\<dots> \<longleftrightarrow> latest_producer (T @ [((n, i), eq)]) v s"
      using latest_producer_snoc [OF bound] by simp
    finally show ?thesis .
  qed
  have td': "?td' c = Some s \<longleftrightarrow> transpose_edge (T @ [((n, i), eq)]) c s" for c s
  proof (cases "slot_pos c = (n, i)")
    case False
    obtain n' i' j where c: "c = (n', i', j)" by (metis surj_pair)
    have "?td' c = ?td c"
      unfolding c using False c by (intro link_dependencies_other) (simp add: slot_pos_def)
    then show ?thesis
      using IHtd transpose_edge_snoc_other [OF bound False] by simp
  next
    case True
    obtain j where c: "c = (n, i, j)" using True by (cases c) (auto simp: slot_pos_def)
    have none: "?td c = None"
      using IHtd [of c] transpose_edge_absent [OF bound True] by (cases "?td c") auto
    show ?thesis
    proof (cases "j < length (eq_dependencies eq)")
      case False
      then have "?td' c = ?td c"
        unfolding c by (intro link_dependencies_other) simp
      then show ?thesis
        using none False c transpose_edge_snoc_at [OF bound True, of eq s] by simp
    next
      case j: True
      let ?v = "var_id (eq_dependencies eq ! j)"
      have at: "?td' c = (case ?le' ?v of None \<Rightarrow> None
                 | Some (p, k, m) \<Rightarrow> if p < n \<or> k < i then Some (p, k, m) else None)"
        using link_dependencies_at [OF j, of n i ?le' ?td] none c by (simp split: option.splits)
      have "?td' c = Some s \<longleftrightarrow> \<not> produces eq ?v \<and> latest_producer T ?v s"
      proof (cases "produces eq ?v")
        case True
        have "?td' c \<noteq> Some s"
        proof
          assume a: "?td' c = Some s"
          then have les: "?le' ?v = Some s" and cond: "fst s < n \<or> fst (snd s) < i"
            using at by (auto split: option.splits if_splits)
          then have "\<exists>m. s = (n, i, m)"
            using True unfolding record_outputs_Some produces_def by blast
          then show False using cond by auto
        qed
        then show ?thesis using True by simp
      next
        case False
        have same: "?le' ?v = ?le ?v"
          using False by (intro record_outputs_not_produced) (simp add: produces_def)
        have "fst s < n \<or> fst (snd s) < i" if lp: "latest_producer T ?v s"
        proof -
          obtain e where "(slot_pos s, e) \<in> set T"
            using latest_producer_position [OF lp] by blast
          then have "slot_pos s < (n, i)" using bound by blast
          then show ?thesis by (auto simp: slot_pos_def)
        qed
        then show ?thesis
          using at same IHle [of ?v s] False
          by (cases "?le ?v") (auto split: if_splits)
      qed
      then show ?thesis
        using j c transpose_edge_snoc_at [OF bound True, of eq s] by simp
    qed
  qed
  show ?case
    unfolding x transpose_tape_snoc using le' td' by simp
qed


lemma fold_concat_map: "fold f (concat (map g ns)) s = fold (\<lambda>n. fold f (g n)) ns s"
  by (induction ns arbitrary: s) simp_all

lemma fold_transpose_eq_positions:
  "fold (\<lambda>pe. transpose_eq (fst (fst pe)) (snd (fst pe), snd pe))
     (map (\<lambda>(i, eq). ((n, i), eq)) xs) s = fold (transpose_eq n) xs s"
  by (induction xs arbitrary: s) (simp_all add: case_prod_beta)

lemma transpose_pass_tape:
  "transpose_pass blocks = snd (transpose_tape (tape blocks) (Map.empty, Map.empty))"
proof -
  have "transpose_tape (tape blocks) s = fold (transpose_block blocks) (blocks_n blocks) s" for s
    unfolding transpose_tape_def tape_def fold_concat_map fold_transpose_eq_positions
      transpose_block_def ..
  then show ?thesis by (simp add: transpose_pass_def)
qed

lemma blocks_n_strict: "sorted_wrt (<) (blocks_n blocks)"
proof (cases blocks)
  case (Sequence bs)
  have "sorted_wrt (<) (map int [0..<k])" for k
    by (simp add: sorted_wrt_map)
  then show ?thesis using Sequence by simp
next
  case (Mapping al)
  then show ?thesis by (simp add: strict_sorted_iff)
qed

lemma block_positions:
  "map fst (map (\<lambda>(i, eq). ((n, i), eq)) (enumerate 0 xs)) = map (\<lambda>i. (n, i)) [0..<length xs]"
  by (induction xs rule: rev_induct) (simp_all add: enumerate_append_eq)

lemma tape_positions_sorted_aux:
  fixes ns :: "int list"
  shows "sorted_wrt (<) ns \<Longrightarrow>
   sorted_wrt (<) (map fst (concat (map (\<lambda>n. map (\<lambda>(i, eq). ((n, i), eq)) (enumerate 0 (f n))) ns)))
   \<and> (\<forall>q \<in> set (map fst (concat (map (\<lambda>n. map (\<lambda>(i, eq). ((n, i), eq)) (enumerate 0 (f n))) ns))).
        fst q \<in> set ns)"
proof (induction ns)
  case Nil
  then show ?case by simp
next
  case (Cons n ns)
  let ?rest = "map fst (concat (map (\<lambda>n. map (\<lambda>(i, eq). ((n, i), eq)) (enumerate 0 (f n))) ns))"
  have IH: "sorted_wrt (<) ?rest" "\<forall>q \<in> set ?rest. fst q \<in> set ns"
    using Cons by simp_all
  have n: "\<forall>n' \<in> set ns. n < n'" using Cons.prems by simp
  have "(\<lambda>x y. (n, x) < (n, y)) = ((<) :: nat \<Rightarrow> nat \<Rightarrow> bool)"
    by (auto simp: fun_eq_iff)
  then have blk: "sorted_wrt (<) (map (\<lambda>i. (n, i)) [0..<length (f n)])"
    by (simp add: sorted_wrt_map del: less_prod_simp)
  have cross: "\<forall>a \<in> set (map (\<lambda>i. (n, i)) [0..<length (f n)]). \<forall>b \<in> set ?rest. a < b"
  proof (intro ballI)
    fix a b assume a: "a \<in> set (map (\<lambda>i. (n, i)) [0..<length (f n)])" and b: "b \<in> set ?rest"
    have "fst a = n" using a by auto
    moreover have "n < fst b" using b IH(2) n by blast
    ultimately show "a < b" by (simp add: less_prod_def)
  qed
  have "sorted_wrt (<) (map (\<lambda>i. (n, i)) [0..<length (f n)] @ ?rest)"
    using blk IH(1) cross by (simp add: sorted_wrt_append)
  moreover have "\<forall>q \<in> set (map (\<lambda>i. (n, i)) [0..<length (f n)] @ ?rest). fst q \<in> set (n # ns)"
    using IH(2) by auto
  ultimately show ?case
    by (simp add: block_positions del: map_map)
qed

lemma tape_positions_sorted: "sorted_wrt (<) (map fst (tape blocks))"
  unfolding tape_def using tape_positions_sorted_aux [OF blocks_n_strict] by blast

lemma TransposeComputationalGraph_transpose_deps:
  "TransposeComputationalGraph rst Js M blocks pf pa = Inr g \<Longrightarrow>
   tcg_transpose_deps g = transpose_pass blocks"
  by (auto simp: TransposeComputationalGraph_def Let_def split: sum.splits if_splits)

section \<open>Claim C1\<close>

text \<open>
  C1: in the object that the constructor returns, for a sequence of blocks and for a
  mapping alike, \<^verbatim>\<open>(n, i, j)\<close> is a key with the value \<^verbatim>\<open>(p, k, m)\<close> if and only if
  \<^verbatim>\<open>(n, i)\<close> is an equation of the tape with a dependency \<open>j\<close>, and the variable of
  that dependency was produced as output \<open>m\<close> by the equation \<^verbatim>\<open>(p, k)\<close>, which is
  strictly earlier than \<^verbatim>\<open>(n, i)\<close>, with no equation after \<^verbatim>\<open>(p, k)\<close>, up to and
  including \<^verbatim>\<open>(n, i)\<close> itself, producing that variable id, and no later output of
  \<^verbatim>\<open>(p, k)\<close> holding it. So an edge points to the most recent earlier producer and
  never to an earlier one.
\<close>

theorem transpose_edge_most_recent_producer:
  assumes "TransposeComputationalGraph rst Js M blocks prune_forward prune_adjoint = Inr g"
  shows "(tcg_contains g (n, i, j) \<and> tcg_getitem g (n, i, j) = Inr (p, k, m)) \<longleftrightarrow>
     (\<exists>eq. ((n, i), eq) \<in> set (tape blocks) \<and> j < length (eq_dependencies eq)
        \<and> most_recent_producer (tape blocks) (n, i) (var_id (eq_dependencies eq ! j)) (p, k, m))"
proof -
  have td: "tcg_transpose_deps g = snd (transpose_tape (tape blocks) (Map.empty, Map.empty))"
    using TransposeComputationalGraph_transpose_deps [OF assms] transpose_pass_tape by simp
  have "(tcg_contains g (n, i, j) \<and> tcg_getitem g (n, i, j) = Inr (p, k, m))
        \<longleftrightarrow> tcg_transpose_deps g (n, i, j) = Some (p, k, m)"
    by (auto simp: tcg_contains_def tcg_getitem_def split: option.splits)
  also have "\<dots> \<longleftrightarrow> transpose_edge (tape blocks) (n, i, j) (p, k, m)"
    using transpose_tape_inv [OF tape_positions_sorted, of blocks] td by simp
  finally show ?thesis by (simp add: transpose_edge_def slot_pos_def)
qed

theorem transpose_edge_most_recent_producer_witness:
  "(\<exists>g. TransposeComputationalGraph (\<lambda>a b. b) [ex_var 2] [ex_var 0] ex_shadow True True = Inr g)
   \<and> (\<exists>eq. ((7, 0), eq) \<in> set (tape ex_shadow) \<and> 1 < length (eq_dependencies eq)
        \<and> most_recent_producer (tape ex_shadow) (7, 0) (var_id (eq_dependencies eq ! 1)) (3, 1, 0))
   \<and> \<not> (\<exists>eq. ((7, 0), eq) \<in> set (tape ex_shadow) \<and> 1 < length (eq_dependencies eq)
        \<and> most_recent_producer (tape ex_shadow) (7, 0) (var_id (eq_dependencies eq ! 1)) (3, 0, 0))"
proof -
  have ev: "(case TransposeComputationalGraph (\<lambda>a b. b) [ex_var 2] [ex_var 0] ex_shadow True True of
      Inl e \<Rightarrow> False
    | Inr g \<Rightarrow> tcg_contains g (7, 0, 1) \<and> tcg_getitem g (7, 0, 1) = Inr (3, 1, 0))"
    by code_simp
  show ?thesis
  proof (cases "TransposeComputationalGraph (\<lambda>a b. b) [ex_var 2] [ex_var 0] ex_shadow True True")
    case (Inl e)
    then show ?thesis using ev by simp
  next
    case (Inr g)
    then have edge: "tcg_contains g (7, 0, 1) \<and> tcg_getitem g (7, 0, 1) = Inr (3, 1, 0)"
      using ev by simp
    then have other: "\<not> (tcg_contains g (7, 0, 1) \<and> tcg_getitem g (7, 0, 1) = Inr (3, 0, 0))"
      by simp
    show ?thesis
      using Inr edge other
        transpose_edge_most_recent_producer [OF Inr, of 7 0 1 3 1 0]
        transpose_edge_most_recent_producer [OF Inr, of 7 0 1 3 0 0]
      by blast
  qed
qed

section \<open>Forward and adjoint pruning\<close>

lemma fold_err_inv:
  assumes "\<And>x s s'. x \<in> set xs \<Longrightarrow> P s \<Longrightarrow> f x s = Inr s' \<Longrightarrow> P s'"
    and "P s" and "fold_err f xs s = Inr s'"
  shows "P s'"
  using assms
proof (induction xs arbitrary: s)
  case Nil
  then show ?case by simp
next
  case (Cons x xs)
  from Cons.prems(3) obtain s1 where s1: "f x s = Inr s1" and rest: "fold_err f xs s1 = Inr s'"
    by (auto split: sum.splits)
  have s1P: "P s1" using Cons.prems(1) [of x s s1] Cons.prems(2) s1 by simp
  show ?case
  proof (rule Cons.IH [OF _ s1P rest])
    fix y t t' assume "y \<in> set xs" "P t" "f y t = Inr t'"
    then show "P t'" using Cons.prems(1) [of y t t'] by simp
  qed
qed

lemma fold_err_append:
  "fold_err f (xs @ ys) s = (case fold_err f xs s of Inl e \<Rightarrow> Inl e | Inr s' \<Rightarrow> fold_err f ys s')"
  by (induction xs arbitrary: s) (simp_all split: sum.splits)

lemma fold_err_concat_map:
  "fold_err f (concat (map g ns)) s = fold_err (\<lambda>n. fold_err f (g n)) ns s"
  by (induction ns arbitrary: s) (simp_all add: fold_err_append split: sum.splits)

lemma map_err_Inr:
  "map_err f xs = Inr ys \<Longrightarrow> length ys = length xs \<and> (\<forall>i < length xs. f (xs ! i) = Inr (ys ! i))"
proof (induction xs arbitrary: ys)
  case Nil
  then show ?case by simp
next
  case (Cons x xs)
  from Cons.prems obtain y ys' where y: "f x = Inr y" and ys': "map_err f xs = Inr ys'"
    and ys: "ys = y # ys'"
    by (auto split: sum.splits)
  show ?case using Cons.IH [OF ys'] y ys by (auto simp: nth_Cons split: nat.splits)
qed

lemma tape_mem:
  "((n, i), eq) \<in> set (tape blocks) \<longleftrightarrow>
     n \<in> set (blocks_n blocks) \<and> i < length (blocks_get blocks n) \<and> eq = blocks_get blocks n ! i"
proof
  assume "((n, i), eq) \<in> set (tape blocks)"
  then show "n \<in> set (blocks_n blocks) \<and> i < length (blocks_get blocks n) \<and> eq = blocks_get blocks n ! i"
    by (auto simp: tape_def in_set_enumerate_eq)
next
  assume a: "n \<in> set (blocks_n blocks) \<and> i < length (blocks_get blocks n) \<and> eq = blocks_get blocks n ! i"
  then have "(i, eq) \<in> set (enumerate 0 (blocks_get blocks n))"
    by (simp add: in_set_enumerate_eq)
  then have "((n, i), eq) \<in> set (map (\<lambda>(i, eq). ((n, i), eq)) (enumerate 0 (blocks_get blocks n)))"
    by force
  then show "((n, i), eq) \<in> set (tape blocks)"
    unfolding tape_def using a by auto
qed

lemma flags_full_Some:
  "flags_full blocks v n =
     (if n \<in> set (blocks_n blocks) then Some (replicate (length (blocks_get blocks n)) v) else None)"
  unfolding flags_full_def
  by (induction "blocks_n blocks" arbitrary: n) (auto simp: map_of_map_restrict restrict_map_def)

lemma flags_full_shape: "flags_shape blocks (flags_full blocks v)"
  unfolding flags_shape_def
  by (auto simp: flags_full_Some dom_def split: if_splits)

lemma flags_full_get:
  "((n, i), eq) \<in> set (tape blocks) \<Longrightarrow> flags_get (flags_full blocks v) n i = Inr v"
  by (simp add: tape_mem flags_get_def flags_full_Some)

lemma flags_set_shape:
  assumes "flags_shape blocks a" and "flags_set a n i v = Inr a'"
  shows "flags_shape blocks a'"
proof -
  from assms(2) obtain bs where bs: "a n = Some bs" and a': "a' = a(n \<mapsto> bs[i := v])"
    by (auto simp: flags_set_def split: option.splits if_splits)
  have "dom a' = dom a" using bs a' by auto
  then show ?thesis using assms(1) bs a' by (auto simp: flags_shape_def)
qed

lemma flags_shape_get:
  assumes "flags_shape blocks a" and "((n, i), eq) \<in> set (tape blocks)"
  shows "\<exists>b. flags_get a n i = Inr b"
proof -
  have "n \<in> dom a" and i: "i < length (blocks_get blocks n)"
    using assms by (auto simp: flags_shape_def tape_mem)
  then obtain bs where bs: "a n = Some bs" by auto
  then have "length bs = length (blocks_get blocks n)" using assms(1) by (simp add: flags_shape_def)
  then show ?thesis using bs i by (simp add: flags_get_def)
qed

lemma flags_get_on_tape:
  assumes "flags_shape blocks a" and "flags_get a n i = Inr b"
  shows "\<exists>eq. ((n, i), eq) \<in> set (tape blocks)"
proof -
  from assms(2) obtain bs where bs: "a n = Some bs" and i: "i < length bs"
    by (auto simp: flags_get_def split: option.splits if_splits)
  have "n \<in> set (blocks_n blocks)" using bs assms(1) by (auto simp: flags_shape_def)
  moreover have "i < length (blocks_get blocks n)" using bs i assms(1) by (simp add: flags_shape_def)
  ultimately show ?thesis by (simp add: tape_mem)
qed

lemma adjoint_eq_act:
  "adjoint_eq td J_id n ie s = Inr s' \<Longrightarrow>
   snd (snd s') = snd (snd s) \<or> flags_set (snd (snd s)) n (fst ie) False = Inr (snd (snd s'))"
  unfolding adjoint_eq_def Let_def
  by (auto split: sum.splits if_splits bool.splits prod.splits)

lemma adjoint_eq_below:
  assumes "below_forward blocks af s" and "adjoint_eq td J_id n ie s = Inr s'"
  shows "below_forward blocks af s'"
proof -
  from adjoint_eq_act [OF assms(2)]
  show ?thesis
  proof
    assume "snd (snd s') = snd (snd s)"
    then show ?thesis using assms(1) by (simp add: below_forward_def)
  next
    assume set: "flags_set (snd (snd s)) n (fst ie) False = Inr (snd (snd s'))"
    have "flags_shape blocks (snd (snd s'))"
      using assms(1) set flags_set_shape by (auto simp: below_forward_def)
    moreover have "flags_get af m l = Inr True" if "flags_get (snd (snd s')) m l = Inr True" for m l
      using that flags_set_get [OF set, of m l] assms(1)
      by (auto simp: below_forward_def split: if_splits)
    ultimately show ?thesis by (simp add: below_forward_def)
  qed
qed

lemma adjoint_block_below:
  assumes "below_forward blocks af s" and "adjoint_block blocks td J_id n s = Inr s'"
  shows "below_forward blocks af s'"
  using assms(2) unfolding adjoint_block_def
  by (rule fold_err_inv [where P = "below_forward blocks af", rotated 2])
     (auto intro: adjoint_eq_below assms(1))

lemma adjoint_pass_below:
  assumes "flags_shape blocks af" and "adjoint_pass blocks td af J = Inr act"
  shows "flags_shape blocks act \<and> (\<forall>n i. flags_get act n i = Inr True \<longrightarrow> flags_get af n i = Inr True)"
proof -
  from assms(2) obtain s' where
    f: "fold_err (adjoint_block blocks td (var_id J)) (rev (blocks_n blocks))
          (True, flags_full blocks False, af) = Inr s'"
    and act: "act = snd (snd s')"
    by (auto simp: adjoint_pass_def split: sum.splits)
  have "below_forward blocks af (True, flags_full blocks False, af)"
    using assms(1) by (simp add: below_forward_def)
  then have "below_forward blocks af s'"
    using f by (rule fold_err_inv [where P = "below_forward blocks af", rotated 1])
      (auto intro: adjoint_block_below)
  then show ?thesis using act by (simp add: below_forward_def)
qed

lemma dependency_active_True:
  "dependency_active tdi af n i jds = Inr True \<Longrightarrow>
   \<exists>j p k m. tdi (n, i, j) = Some (p, k, m) \<and> flags_get af p k = Inr True"
proof (induction jds)
  case Nil
  then show ?case by simp
next
  case (Cons jd jds)
  show ?case
  proof (cases "tdi (n, i, fst jd)")
    case None
    then show ?thesis using Cons by simp
  next
    case (Some s)
    obtain p k m where s: "s = (p, k, m)" by (metis surj_pair)
    show ?thesis
    proof (cases "flags_get af p k")
      case (Inl e)
      then show ?thesis using Cons.prems Some s by simp
    next
      case (Inr b)
      show ?thesis
      proof (cases b)
        case True
        then show ?thesis using Some s Inr by auto
      next
        case False
        then show ?thesis using Cons Some s Inr by simp
      qed
    qed
  qed
qed

lemma flags_set_idem: "flags_set a n i v = Inr a1 \<Longrightarrow> flags_set a1 n i v = Inr a1"
  by (auto simp: flags_set_def split: option.splits if_splits)

lemma flags_set_get_same: "flags_set a n i v = Inr a1 \<Longrightarrow> flags_get a1 n i = Inr v"
  by (simp add: flags_set_get)

lemma forward_eq_cases:
  assumes "forward_eq tdi n (i, eq) (aM, af) = Inr (aM', af')"
  shows "aM' \<subseteq> aM \<and>
     (af' = af \<or>
      (flags_set af n i True = Inr af' \<and>
       (eq_class eq = Instruction \<or> set (map var_id (eq_X eq)) \<inter> aM \<noteq> {}
        \<or> (\<exists>j p k m. tdi (n, i, j) = Some (p, k, m) \<and> flags_get af p k = Inr True))))"
proof -
  let ?X = "set (map var_id (eq_X eq))"
  let ?E1 = "if eq_class eq = Instruction then flags_set af n i True else Inr af"
  let ?E2 = "\<lambda>af1. if aM \<noteq> {} then
        (if ?X \<inter> aM \<noteq> {} then
           (case flags_set af1 n i True of Inl e \<Rightarrow> Inl e | Inr af2 \<Rightarrow> Inr (aM - ?X, af2))
         else Inr (aM, af1))
      else Inr (aM, af1)"
  let ?E3 = "\<lambda>aM2 af2. case flags_get af2 n i of
       Inl e \<Rightarrow> Inl e
     | Inr True \<Rightarrow> Inr (aM2, af2)
     | Inr False \<Rightarrow>
         (case dependency_active tdi af2 n i (enumerate 0 (eq_dependencies eq)) of
            Inl e \<Rightarrow> Inl e
          | Inr True \<Rightarrow> (case flags_set af2 n i True of Inl e \<Rightarrow> Inl e | Inr af3 \<Rightarrow> Inr (aM2, af3))
          | Inr False \<Rightarrow> Inr (aM2, af2))"
  have u: "(case ?E1 of Inl e \<Rightarrow> Inl e
            | Inr af1 \<Rightarrow> (case ?E2 af1 of Inl e \<Rightarrow> Inl e | Inr (aM2, af2) \<Rightarrow> ?E3 aM2 af2))
           = Inr (aM', af')"
    using assms by (simp only: forward_eq_def Let_def fst_conv snd_conv)
  obtain af1 where af1: "?E1 = Inr af1"
    and u1: "(case ?E2 af1 of Inl e \<Rightarrow> Inl e | Inr (aM2, af2) \<Rightarrow> ?E3 aM2 af2) = Inr (aM', af')"
    using u by (cases ?E1) simp_all
  obtain aM2 af2 where af2: "?E2 af1 = Inr (aM2, af2)" and rest: "?E3 aM2 af2 = Inr (aM', af')"
    using u1 by (cases "?E2 af1") auto
  have sub: "aM2 \<subseteq> aM" using af2 by (auto split: if_splits sum.splits)
  have one: "af1 = af \<or> (flags_set af n i True = Inr af1 \<and> eq_class eq = Instruction)"
    using af1 by (auto split: if_splits)
  have two: "af2 = af1 \<or> (flags_set af1 n i True = Inr af2 \<and> ?X \<inter> aM \<noteq> {})"
    using af2 by (auto split: if_splits sum.splits)
  have upto2: "af2 = af \<or> (flags_set af n i True = Inr af2 \<and> (eq_class eq = Instruction \<or> ?X \<inter> aM \<noteq> {}))"
    using one two flags_set_idem by fastforce
  obtain b where b: "flags_get af2 n i = Inr b" using rest by (auto split: sum.splits)
  show ?thesis
  proof (cases b)
    case True
    then have "aM' = aM2 \<and> af' = af2" using rest b by simp
    then show ?thesis using sub upto2 by auto
  next
    case False
    then have same: "af2 = af" using upto2 b flags_set_get_same by fastforce
    obtain d where d: "dependency_active tdi af2 n i (enumerate 0 (eq_dependencies eq)) = Inr d"
      using rest b False by (auto split: sum.splits)
    show ?thesis
    proof (cases d)
      case True
      then have "flags_set af2 n i True = Inr af' \<and> aM' = aM2"
        using rest b False d by (auto split: sum.splits)
      moreover have "dependency_active tdi af n i (enumerate 0 (eq_dependencies eq)) = Inr True"
        using d True same by simp
      then have "\<exists>j p k m. tdi (n, i, j) = Some (p, k, m) \<and> flags_get af p k = Inr True"
        by (rule dependency_active_True)
      ultimately show ?thesis using same sub by blast
    next
      case False
      then have "aM' = aM2 \<and> af' = af2" using rest b d \<open>\<not> b\<close> by simp
      then show ?thesis using same sub by simp
    qed
  qed
qed

lemma edges_soundD:
  assumes "edges_sound T tdi" and "tdi (n, i, j) = Some (p, k, m)"
  shows "depends_on T (n, i) (p, k)" and "\<exists>eq'. ((p, k), eq') \<in> set T \<and> eq_X eq' \<noteq> []"
proof -
  have "depends_on T (slot_pos (n, i, j)) (slot_pos (p, k, m)) \<and>
        (\<exists>eq'. (slot_pos (p, k, m), eq') \<in> set T \<and> eq_X eq' \<noteq> [])"
    using assms unfolding edges_sound_def by blast
  then show "depends_on T (n, i) (p, k)" and "\<exists>eq'. ((p, k), eq') \<in> set T \<and> eq_X eq' \<noteq> []"
    by (simp_all add: slot_pos_def)
qed

lemma forward_eq_sound:
  assumes inv: "forward_sound blocks M s" and edges: "edges_sound (tape blocks) tdi"
    and instr: "\<forall>q e. (q, e) \<in> set (tape blocks) \<and> eq_class e = Instruction \<longrightarrow> eq_X e = []"
    and mem: "((n, i), eq) \<in> set (tape blocks)"
    and step: "forward_eq tdi n (i, eq) s = Inr s'"
  shows "forward_sound blocks M s'"
proof -
  obtain aM af where s: "s = (aM, af)" by (cases s)
  obtain aM' af' where s': "s' = (aM', af')" by (cases s')
  have aM: "aM \<subseteq> M" and shape: "flags_shape blocks af"
    and sound: "\<And>n i eq. ((n, i), eq) \<in> set (tape blocks) \<Longrightarrow> flags_get af n i = Inr True \<Longrightarrow>
         eq_class eq = Instruction \<or> reachable (tape blocks) M (n, i)"
    using inv s by (auto simp: forward_sound_def)
  from forward_eq_cases [OF step [unfolded s s']]
  have sub: "aM' \<subseteq> aM" and cases:
    "af' = af \<or>
      (flags_set af n i True = Inr af' \<and>
       (eq_class eq = Instruction \<or> set (map var_id (eq_X eq)) \<inter> aM \<noteq> {}
        \<or> (\<exists>j p k m. tdi (n, i, j) = Some (p, k, m) \<and> flags_get af p k = Inr True)))"
    by simp_all
  show ?thesis
  proof (cases "af' = af")
    case True
    then show ?thesis using inv s s' sub by (auto simp: forward_sound_def)
  next
    case False
    then have set: "flags_set af n i True = Inr af'"
      and why: "eq_class eq = Instruction \<or> set (map var_id (eq_X eq)) \<inter> aM \<noteq> {}
        \<or> (\<exists>j p k m. tdi (n, i, j) = Some (p, k, m) \<and> flags_get af p k = Inr True)"
      using cases by auto
    have here: "eq_class eq = Instruction \<or> reachable (tape blocks) M (n, i)"
    proof (cases "eq_class eq = Instruction")
      case True
      then show ?thesis by simp
    next
      case notI: False
      show ?thesis
      proof (cases "set (map var_id (eq_X eq)) \<inter> aM \<noteq> {}")
        case True
        then obtain v where "v \<in> M" "produces eq v" using aM by (auto simp: produces_def)
        then show ?thesis using mem reachable.control by blast
      next
        case False
        then obtain j p k m where e: "tdi (n, i, j) = Some (p, k, m)"
          and act: "flags_get af p k = Inr True"
          using why notI by blast
        have dep: "depends_on (tape blocks) (n, i) (p, k)"
          and "\<exists>eq'. ((p, k), eq') \<in> set (tape blocks) \<and> eq_X eq' \<noteq> []"
          using edges_soundD [OF edges e] by simp_all
        then obtain eq' where eq': "((p, k), eq') \<in> set (tape blocks)" "eq_X eq' \<noteq> []" by blast
        then have "eq_class eq' \<noteq> Instruction" using instr by blast
        then have "reachable (tape blocks) M (p, k)" using sound [OF eq'(1) act] by simp
        then show ?thesis using dep reachable.dependency by blast
      qed
    qed
    have "eq_class eq' = Instruction \<or> reachable (tape blocks) M (n', i')"
      if "((n', i'), eq') \<in> set (tape blocks)" and "flags_get af' n' i' = Inr True" for n' i' eq'
    proof (cases "n' = n \<and> i' = i")
      case True
      then have "eq' = eq" using that(1) mem by (simp add: tape_mem)
      then show ?thesis using here True by simp
    next
      case False
      then have "flags_get af n' i' = Inr True" using that(2) flags_set_get [OF set, of n' i'] by auto
      then show ?thesis using sound that(1) by blast
    qed
    moreover have "flags_shape blocks af'" using shape set by (rule flags_set_shape)
    ultimately show ?thesis using s' sub aM by (auto simp: forward_sound_def)
  qed
qed

lemma forward_block_sound:
  assumes inv: "forward_sound blocks M s" and edges: "edges_sound (tape blocks) tdi"
    and instr: "\<forall>q e. (q, e) \<in> set (tape blocks) \<and> eq_class e = Instruction \<longrightarrow> eq_X e = []"
    and n: "n \<in> set (blocks_n blocks)"
    and step: "forward_block blocks tdi n s = Inr s'"
  shows "forward_sound blocks M s'"
  using inv step unfolding forward_block_def
proof (rule fold_err_inv [where P = "forward_sound blocks M", rotated 1])
  fix x t t'
  assume x: "x \<in> set (enumerate 0 (blocks_get blocks n))" and t: "forward_sound blocks M t"
    and f: "forward_eq tdi n x t = Inr t'"
  obtain i eq where xi: "x = (i, eq)" by (cases x)
  have "((n, i), eq) \<in> set (tape blocks)"
    using x xi n by (simp add: tape_mem in_set_enumerate_eq)
  then show "forward_sound blocks M t'"
    using forward_eq_sound [OF t edges instr _ f [unfolded xi]] by simp
qed

lemma forward_pass_sound:
  assumes edges: "edges_sound (tape blocks) tdi"
    and instr: "\<forall>q e. (q, e) \<in> set (tape blocks) \<and> eq_class e = Instruction \<longrightarrow> eq_X e = []"
    and pass: "forward_pass blocks M tdi = Inr af"
  shows "flags_shape blocks af \<and>
     (\<forall>n i eq. ((n, i), eq) \<in> set (tape blocks) \<and> flags_get af n i = Inr True \<longrightarrow>
        eq_class eq = Instruction \<or> reachable (tape blocks) (set (map var_id M)) (n, i))"
proof -
  let ?M = "set (map var_id M)"
  from pass obtain s' where
    f: "fold_err (forward_block blocks tdi) (blocks_n blocks) (?M, flags_full blocks False) = Inr s'"
    and af: "af = snd s'"
    by (auto simp: forward_pass_def split: sum.splits)
  have "forward_sound blocks ?M (?M, flags_full blocks False)"
    using flags_full_shape flags_full_get [where v = False]
    by (auto simp: forward_sound_def)
  then have "forward_sound blocks ?M s'"
    using f
  proof (rule fold_err_inv [where P = "forward_sound blocks ?M", rotated 1])
    fix x t t'
    assume "x \<in> set (blocks_n blocks)" "forward_sound blocks ?M t" "forward_block blocks tdi x t = Inr t'"
    then show "forward_sound blocks ?M t'"
      using forward_block_sound [OF _ edges instr] by blast
  qed
  then show ?thesis using af by (simp add: forward_sound_def)
qed

lemma dep_map_snoc: "dep_map (deps @ [d]) = (dep_map deps)(var_id d \<mapsto> length deps)"
  by (simp add: dep_map_def enumerate_append_eq)

lemma dep_map_Some:
  "dep_map deps v = Some j \<Longrightarrow> j < length deps \<and> var_id (deps ! j) = v"
proof (induction deps arbitrary: j rule: rev_induct)
  case Nil
  then show ?case by (simp add: dep_map_def)
next
  case (snoc d deps)
  show ?case
  proof (cases "var_id d = v")
    case True
    then have "j = length deps" using snoc.prems by (simp add: dep_map_snoc)
    then show ?thesis using True by simp
  next
    case False
    then have "dep_map deps v = Some j" using snoc.prems by (simp add: dep_map_snoc)
    then have "j < length deps \<and> var_id (deps ! j) = v" by (rule snoc.IH)
    then show ?thesis by (simp add: nth_append)
  qed
qed

lemma depends_on_snoc:
  assumes above: "\<forall>q e. (q, e) \<in> set L \<longrightarrow> pos < q" and dep: "depends_on L c p"
  shows "depends_on (L @ [(pos, eq0)]) c p"
proof -
  from dep obtain eq eq' v where c: "(c, eq) \<in> set L" and p: "(p, eq') \<in> set L" and lt: "p < c"
    and v: "v \<in> var_id ` set (eq_dependencies eq)" and pr: "produces eq' v"
    and between: "\<forall>q e. (q, e) \<in> set L \<and> p < q \<and> q < c \<longrightarrow> \<not> produces e v"
    unfolding depends_on_def by blast
  have "\<not> produces e v" if "(q, e) \<in> set (L @ [(pos, eq0)]) \<and> p < q \<and> q < c" for q e
  proof (cases "(q, e) \<in> set L")
    case True
    then show ?thesis using between that by blast
  next
    case False
    then have "q = pos" using that by simp
    moreover have "pos < p" using above p by blast
    ultimately show ?thesis using that by (metis less_asym)
  qed
  moreover have "(c, eq) \<in> set (L @ [(pos, eq0)])" "(p, eq') \<in> set (L @ [(pos, eq0)])"
    using c p by simp_all
  ultimately show ?thesis unfolding depends_on_def using lt v pr by blast
qed

lemma earliest_producer_snoc:
  assumes ep: "earliest_producer L v c" and np: "\<not> produces eq0 v"
  shows "earliest_producer (L @ [(pos, eq0)]) v c"
proof -
  from ep obtain eq where c: "(slot_pos c, eq) \<in> set L" and pr: "produces eq v"
    and j: "snd (snd c) < length (eq_dependencies eq)"
    and jv: "var_id (eq_dependencies eq ! snd (snd c)) = v"
    and first: "\<forall>q e. (q, e) \<in> set L \<and> q < slot_pos c \<longrightarrow> \<not> produces e v"
    unfolding earliest_producer_def by blast
  have "\<not> produces e v" if "(q, e) \<in> set (L @ [(pos, eq0)]) \<and> q < slot_pos c" for q e
  proof (cases "(q, e) \<in> set L")
    case True
    then show ?thesis using first that by blast
  next
    case False
    then have "e = eq0" using that by simp
    then show ?thesis using np by simp
  qed
  moreover have "(slot_pos c, eq) \<in> set (L @ [(pos, eq0)])" using c by simp
  ultimately show ?thesis unfolding earliest_producer_def using pr j jv by blast
qed

lemma earliest_producer_new:
  assumes above: "\<forall>q e. (q, e) \<in> set L \<longrightarrow> pos < q"
    and c: "slot_pos c = pos" and pr: "produces eq0 v"
    and j: "snd (snd c) < length (eq_dependencies eq0)"
    and jv: "var_id (eq_dependencies eq0 ! snd (snd c)) = v"
  shows "earliest_producer (L @ [(pos, eq0)]) v c"
proof -
  have "\<not> produces e v" if "(q, e) \<in> set (L @ [(pos, eq0)]) \<and> q < slot_pos c" for q e
  proof (cases "(q, e) \<in> set L")
    case True
    then have "pos < q" using above by blast
    then show ?thesis using that c by (metis less_asym)
  next
    case False
    then have "q = pos" using that by simp
    then show ?thesis using that c by simp
  qed
  moreover have "(slot_pos c, eq0) \<in> set (L @ [(pos, eq0)])" using c by simp
  ultimately show ?thesis unfolding earliest_producer_def using pr j jv by blast
qed

lemma depends_on_new:
  assumes above: "\<forall>q e. (q, e) \<in> set L \<longrightarrow> pos < q"
    and ep: "earliest_producer L v c" and pr: "produces eq0 v"
  shows "depends_on (L @ [(pos, eq0)]) (slot_pos c) pos"
proof -
  from ep obtain eq where c: "(slot_pos c, eq) \<in> set L"
    and j: "snd (snd c) < length (eq_dependencies eq)"
    and jv: "var_id (eq_dependencies eq ! snd (snd c)) = v"
    and first: "\<forall>q e. (q, e) \<in> set L \<and> q < slot_pos c \<longrightarrow> \<not> produces e v"
    unfolding earliest_producer_def by blast
  have lt: "pos < slot_pos c" using above c by blast
  have v: "v \<in> var_id ` set (eq_dependencies eq)" using j jv by (metis imageI nth_mem)
  have "\<not> produces e v" if "(q, e) \<in> set (L @ [(pos, eq0)]) \<and> pos < q \<and> q < slot_pos c" for q e
  proof (cases "(q, e) \<in> set L")
    case True
    then show ?thesis using first that by blast
  next
    case False
    then have "q = pos" using that by simp
    then show ?thesis using that by simp
  qed
  moreover have "(slot_pos c, eq) \<in> set (L @ [(pos, eq0)])" "(pos, eq0) \<in> set (L @ [(pos, eq0)])"
    using c by simp_all
  ultimately show ?thesis unfolding depends_on_def using lt v pr by blast
qed

lemma ics_output_result:
  assumes "ics_output rst p k eq0 (m, x) s = Inr s'"
  shows "\<exists>j t. dep_map (eq_dependencies eq0) (var_id x) = Some j
           \<and> fst s' = (fst s)(var_id x \<mapsto> (t, (p, k, j)))
           \<and> (snd s' = snd s
               \<or> (\<exists>t0 c0. fst s (var_id x) = Some (t0, c0) \<and> (p, k) < slot_pos c0
                     \<and> snd s' = (snd s)(c0 \<mapsto> (p, k, m))))"
  using assms unfolding ics_output_def Let_def
  by (auto simp: slot_pos_def split: if_splits option.splits sum.splits prod.splits)

lemma ics_inv_partial_start: "ics_inv L td0 s \<Longrightarrow> ics_partial L td0 pos eq0 [] s"
  unfolding ics_inv_def ics_partial_def by auto

lemma ics_output_step:
  assumes inv: "ics_partial L td0 (p, k) eq0 Xs s"
    and step: "ics_output rst p k eq0 (length Xs, x) s = Inr s'"
  shows "ics_partial L td0 (p, k) eq0 (Xs @ [x]) s'"
proof -
  let ?v = "var_id x"
  from ics_output_result [OF step] obtain j t where
    dm: "dep_map (eq_dependencies eq0) ?v = Some j"
    and le': "fst s' = (fst s)(?v \<mapsto> (t, (p, k, j)))"
    and td': "snd s' = snd s
               \<or> (\<exists>t0 c0. fst s ?v = Some (t0, c0) \<and> (p, k) < slot_pos c0
                     \<and> snd s' = (snd s)(c0 \<mapsto> (p, k, length Xs)))"
    by blast
  have j: "j < length (eq_dependencies eq0) \<and> var_id (eq_dependencies eq0 ! j) = ?v"
    using dm by (rule dep_map_Some)
  have K1: "\<And>v t c. fst s v = Some (t, c) \<Longrightarrow>
         (if v \<in> var_id ` set Xs
          then slot_pos c = (p, k) \<and> snd (snd c) < length (eq_dependencies eq0)
               \<and> var_id (eq_dependencies eq0 ! snd (snd c)) = v
          else earliest_producer L v c)"
    and K2: "\<And>c s'. snd s c = Some s' \<Longrightarrow>
            td0 c = Some s' \<or> (depends_on L (slot_pos c) (slot_pos s') \<and> target_outputs L s')
            \<or> (slot_pos s' = (p, k) \<and> snd (snd s') < length Xs
                \<and> earliest_producer L (var_id (Xs ! snd (snd s'))) c)"
    using inv unfolding ics_partial_def by blast+
  have first: "if v \<in> var_id ` set (Xs @ [x])
          then slot_pos c = (p, k) \<and> snd (snd c) < length (eq_dependencies eq0)
               \<and> var_id (eq_dependencies eq0 ! snd (snd c)) = v
          else earliest_producer L v c"
    if "fst s' v = Some (t', c)" for v t' c
  proof (cases "v = ?v")
    case True
    then have "c = (p, k, j)" using that le' by simp
    then show ?thesis using True j by (simp add: slot_pos_def)
  next
    case False
    then have "fst s v = Some (t', c)" using that le' by simp
    then show ?thesis using K1 [of v t' c] False by auto
  qed
  have old: "td0 c = Some r \<or> (depends_on L (slot_pos c) (slot_pos r) \<and> target_outputs L r)
            \<or> (slot_pos r = (p, k) \<and> snd (snd r) < length (Xs @ [x])
                \<and> earliest_producer L (var_id ((Xs @ [x]) ! snd (snd r))) c)"
    if "snd s c = Some r" for c r
    using K2 [OF that] by (auto simp: nth_append)
  have second: "td0 c = Some r \<or> (depends_on L (slot_pos c) (slot_pos r) \<and> target_outputs L r)
            \<or> (slot_pos r = (p, k) \<and> snd (snd r) < length (Xs @ [x])
                \<and> earliest_producer L (var_id ((Xs @ [x]) ! snd (snd r))) c)"
    if r: "snd s' c = Some r" for c r
  proof (cases "snd s' = snd s")
    case True
    then show ?thesis using old r by simp
  next
    case False
    then obtain t0 c0 where le0: "fst s ?v = Some (t0, c0)" and gt: "(p, k) < slot_pos c0"
      and upd: "snd s' = (snd s)(c0 \<mapsto> (p, k, length Xs))"
      using td' by blast
    show ?thesis
    proof (cases "c = c0")
      case True
      then have r0: "r = (p, k, length Xs)" using r upd by simp
      have "?v \<notin> var_id ` set Xs"
      proof
        assume "?v \<in> var_id ` set Xs"
        then have "slot_pos c0 = (p, k)" using K1 [OF le0] by simp
        then show False using gt by simp
      qed
      then have "earliest_producer L ?v c0" using K1 [OF le0] by simp
      then show ?thesis using r0 True by (simp add: slot_pos_def)
    next
      case False
      then have "snd s c = Some r" using r upd by simp
      then show ?thesis by (rule old)
    qed
  qed
  show ?thesis
    unfolding ics_partial_def using first second by blast
qed

lemma ics_outputs_fold:
  assumes "ics_partial L td0 (p, k) eq0 [] s"
    and "fold_err (ics_output rst p k eq0) (enumerate 0 Xs) s = Inr s'"
  shows "ics_partial L td0 (p, k) eq0 Xs s'"
  using assms(2)
proof (induction Xs arbitrary: s' rule: rev_induct)
  case Nil
  then show ?case using assms(1) by simp
next
  case (snoc x Xs)
  from snoc.prems obtain s1 where s1: "fold_err (ics_output rst p k eq0) (enumerate 0 Xs) s = Inr s1"
    and last: "ics_output rst p k eq0 (length Xs, x) s1 = Inr s'"
    by (auto simp: enumerate_append_eq fold_err_append split: sum.splits)
  have "ics_partial L td0 (p, k) eq0 Xs s1" using s1 by (rule snoc.IH)
  then show ?case using last by (rule ics_output_step)
qed

lemma ics_partial_finish:
  assumes above: "\<forall>q e. (q, e) \<in> set L \<longrightarrow> pos < q"
    and inv: "ics_partial L td0 pos eq0 (eq_X eq0) s"
  shows "ics_inv (L @ [(pos, eq0)]) td0 s"
proof -
  have K1: "\<And>v t c. fst s v = Some (t, c) \<Longrightarrow>
         (if v \<in> var_id ` set (eq_X eq0)
          then slot_pos c = pos \<and> snd (snd c) < length (eq_dependencies eq0)
               \<and> var_id (eq_dependencies eq0 ! snd (snd c)) = v
          else earliest_producer L v c)"
    and K2: "\<And>c s'. snd s c = Some s' \<Longrightarrow>
            td0 c = Some s' \<or> (depends_on L (slot_pos c) (slot_pos s') \<and> target_outputs L s')
            \<or> (slot_pos s' = pos \<and> snd (snd s') < length (eq_X eq0)
                \<and> earliest_producer L (var_id (eq_X eq0 ! snd (snd s'))) c)"
    using inv unfolding ics_partial_def by blast+
  have first: "earliest_producer (L @ [(pos, eq0)]) v c" if le: "fst s v = Some (t, c)" for v t c
  proof (cases "v \<in> var_id ` set (eq_X eq0)")
    case True
    then have "slot_pos c = pos \<and> snd (snd c) < length (eq_dependencies eq0)
               \<and> var_id (eq_dependencies eq0 ! snd (snd c)) = v"
      using K1 [OF le] by simp
    then show ?thesis using earliest_producer_new [OF above] True by (simp add: produces_def)
  next
    case False
    then have "earliest_producer L v c" using K1 [OF le] by simp
    then show ?thesis using False by (intro earliest_producer_snoc) (simp_all add: produces_def)
  qed
  have second: "td0 c = Some r \<or> (depends_on (L @ [(pos, eq0)]) (slot_pos c) (slot_pos r)
                  \<and> target_outputs (L @ [(pos, eq0)]) r)"
    if r: "snd s c = Some r" for c r
  proof -
    from K2 [OF r] consider "td0 c = Some r"
      | "depends_on L (slot_pos c) (slot_pos r) \<and> target_outputs L r"
      | "slot_pos r = pos \<and> snd (snd r) < length (eq_X eq0)
                \<and> earliest_producer L (var_id (eq_X eq0 ! snd (snd r))) c"
      by blast
    then show ?thesis
    proof cases
      case 1
      then show ?thesis by simp
    next
      case 2
      then have "depends_on (L @ [(pos, eq0)]) (slot_pos c) (slot_pos r)"
        using depends_on_snoc [OF above] by blast
      moreover have "target_outputs (L @ [(pos, eq0)]) r"
        using 2 unfolding target_outputs_def by auto
      ultimately show ?thesis by simp
    next
      case 3
      then have m: "snd (snd r) < length (eq_X eq0)" by simp
      then have pr: "produces eq0 (var_id (eq_X eq0 ! snd (snd r)))"
        unfolding produces_def by (metis imageI nth_mem)
      have "depends_on (L @ [(pos, eq0)]) (slot_pos c) pos"
        using depends_on_new [OF above _ pr] 3 by blast
      moreover have "target_outputs (L @ [(pos, eq0)]) r"
        unfolding target_outputs_def using 3 m by (intro exI [of _ eq0]) auto
      ultimately show ?thesis using 3 by simp
    qed
  qed
  show ?thesis unfolding ics_inv_def using first second by blast
qed

lemma ics_tape_snoc:
  "ics_tape rst (L @ [((p, k), eq0)]) s =
     (case ics_tape rst L s of
        Inl e \<Rightarrow> Inl e
      | Inr s1 \<Rightarrow> fold_err (ics_output rst p k eq0) (enumerate 0 (eq_X eq0)) s1)"
  by (simp add: ics_tape_def fold_err_append ics_eq_def split: sum.splits)

lemma ics_tape_inv:
  assumes "sorted_wrt (>) (map fst L)" and "ics_tape rst L (Map.empty, td0) = Inr s"
  shows "ics_inv L td0 s"
  using assms
proof (induction L arbitrary: s rule: rev_induct)
  case Nil
  then show ?case by (auto simp: ics_tape_def ics_inv_def)
next
  case (snoc y L)
  obtain p k eq0 where y: "y = ((p, k), eq0)" by (metis surj_pair)
  have sorted: "sorted_wrt (>) (map fst L)" and above: "\<forall>q e. (q, e) \<in> set L \<longrightarrow> (p, k) < q"
    using snoc.prems(1) y by (auto simp: sorted_wrt_append)
  from snoc.prems(2) obtain s1 where s1: "ics_tape rst L (Map.empty, td0) = Inr s1"
    and out: "fold_err (ics_output rst p k eq0) (enumerate 0 (eq_X eq0)) s1 = Inr s"
    unfolding y ics_tape_snoc by (auto split: sum.splits)
  have "ics_inv L td0 s1" using sorted s1 by (rule snoc.IH)
  then have "ics_partial L td0 (p, k) eq0 [] s1" by (rule ics_inv_partial_start)
  then have "ics_partial L td0 (p, k) eq0 (eq_X eq0) s" using out by (rule ics_outputs_fold)
  then show ?case unfolding y using above by (intro ics_partial_finish) simp_all
qed

lemma fold_err_ics_eq_positions:
  "fold_err (\<lambda>pe. ics_eq rst (fst (fst pe)) (snd (fst pe), snd pe))
     (map (\<lambda>(i, eq). ((n, i), eq)) xs) s = fold_err (ics_eq rst n) xs s"
  by (induction xs arbitrary: s) (simp_all add: case_prod_beta split: sum.splits)

lemma rev_tape:
  "rev (tape blocks) =
     concat (map (\<lambda>n. map (\<lambda>(i, eq). ((n, i), eq)) (rev (enumerate 0 (blocks_get blocks n))))
                 (rev (blocks_n blocks)))"
  by (simp add: tape_def rev_concat rev_map comp_def)

lemma ics_pass_tape:
  "fold_err (ics_block rst blocks) (rev (blocks_n blocks)) s = ics_tape rst (rev (tape blocks)) s"
  unfolding ics_tape_def rev_tape fold_err_concat_map fold_err_ics_eq_positions ics_block_def ..

lemma rev_tape_sorted: "sorted_wrt (>) (map fst (rev (tape blocks)))"
  using tape_positions_sorted [of blocks] by (simp add: rev_map [symmetric] sorted_wrt_rev)

lemma depends_on_set: "set L = set T \<Longrightarrow> depends_on L = depends_on T"
  by (simp add: depends_on_def fun_eq_iff)

lemma transpose_pass_edges_sound: "edges_sound (tape blocks) (transpose_pass blocks)"
  unfolding edges_sound_def
proof (intro allI impI)
  fix c s
  let ?T = "tape blocks"
  assume "transpose_pass blocks c = Some s"
  then have "transpose_edge ?T c s"
    using transpose_tape_inv [OF tape_positions_sorted, of blocks] transpose_pass_tape by simp
  then obtain eq eq' where c: "(slot_pos c, eq) \<in> set ?T"
    and j: "snd (snd c) < length (eq_dependencies eq)"
    and p: "(slot_pos s, eq') \<in> set ?T" and lt: "slot_pos s < slot_pos c"
    and slot: "last_output_slot (eq_X eq') (snd (snd s)) (var_id (eq_dependencies eq ! snd (snd c)))"
    and between: "\<forall>q eq''. (q, eq'') \<in> set ?T \<and> slot_pos s < q \<and> q \<le> slot_pos c \<longrightarrow>
        \<not> produces eq'' (var_id (eq_dependencies eq ! snd (snd c)))"
    unfolding transpose_edge_def most_recent_producer_def by blast
  let ?v = "var_id (eq_dependencies eq ! snd (snd c))"
  have v: "?v \<in> var_id ` set (eq_dependencies eq)" using j by simp
  have m: "snd (snd s) < length (eq_X eq')" and mv: "var_id (eq_X eq' ! snd (snd s)) = ?v"
    using slot by (simp_all add: last_output_slot_def)
  have pr: "produces eq' ?v" unfolding produces_def using m mv by (metis imageI nth_mem)
  have "\<forall>q e. (q, e) \<in> set ?T \<and> slot_pos s < q \<and> q < slot_pos c \<longrightarrow> \<not> produces e ?v"
    using between by (metis less_imp_le)
  then have "depends_on ?T (slot_pos c) (slot_pos s)"
    unfolding depends_on_def using c p lt v pr by blast
  moreover have "eq_X eq' \<noteq> []" using m by auto
  ultimately show "depends_on ?T (slot_pos c) (slot_pos s) \<and>
       (\<exists>eq'. (slot_pos s, eq') \<in> set ?T \<and> eq_X eq' \<noteq> [])"
    using p by blast
qed

lemma ics_pass_edges_sound:
  assumes "ics_pass rst blocks (transpose_pass blocks) = Inr tdi"
  shows "edges_sound (tape blocks) tdi"
proof -
  let ?T = "tape blocks"
  from assms obtain s where
    s: "ics_tape rst (rev ?T) (Map.empty, transpose_pass blocks) = Inr s" and tdi: "tdi = snd s"
    by (auto simp: ics_pass_def ics_pass_tape split: sum.splits)
  have inv: "ics_inv (rev ?T) (transpose_pass blocks) s"
    using rev_tape_sorted s by (rule ics_tape_inv)
  have dep: "depends_on (rev ?T) = depends_on ?T" by (rule depends_on_set) simp
  show ?thesis
    unfolding edges_sound_def
  proof (intro allI impI)
    fix c r assume "tdi c = Some r"
    then have "transpose_pass blocks c = Some r
       \<or> (depends_on (rev ?T) (slot_pos c) (slot_pos r) \<and> target_outputs (rev ?T) r)"
      using inv tdi unfolding ics_inv_def by blast
    then show "depends_on ?T (slot_pos c) (slot_pos r) \<and>
       (\<exists>eq'. (slot_pos r, eq') \<in> set ?T \<and> eq_X eq' \<noteq> [])"
    proof
      assume "transpose_pass blocks c = Some r"
      then show ?thesis
        using transpose_pass_edges_sound [of blocks] unfolding edges_sound_def by blast
    next
      assume "depends_on (rev ?T) (slot_pos c) (slot_pos r) \<and> target_outputs (rev ?T) r"
      then show ?thesis using dep by (simp add: target_outputs_def)
    qed
  qed
qed

lemma active_forward_sound:
  assumes instr: "\<forall>q e. (q, e) \<in> set (tape blocks) \<and> eq_class e = Instruction \<longrightarrow> eq_X e = []"
    and af: "active_forward rst M blocks (transpose_pass blocks) True = Inr af"
  shows "flags_shape blocks af \<and>
     (\<forall>n i eq. ((n, i), eq) \<in> set (tape blocks) \<and> flags_get af n i = Inr True \<longrightarrow>
        eq_class eq = Instruction \<or> reachable (tape blocks) (set (map var_id M)) (n, i))"
proof -
  from af obtain tdi where tdi: "ics_pass rst blocks (transpose_pass blocks) = Inr tdi"
    and fp: "forward_pass blocks M tdi = Inr af"
    by (auto simp: active_forward_def split: sum.splits)
  have "edges_sound (tape blocks) tdi" using tdi by (rule ics_pass_edges_sound)
  then show ?thesis using instr fp by (rule forward_pass_sound)
qed

lemma TransposeComputationalGraph_active:
  assumes "TransposeComputationalGraph rst Js M blocks pf pa = Inr g"
  shows "\<exists>af. active_forward rst M blocks (transpose_pass blocks) pf = Inr af
     \<and> length (tcg_active g) = length Js
     \<and> (\<forall>J_i < length Js. tcg_active g ! J_i = af
           \<or> (pa \<and> adjoint_pass blocks (transpose_pass blocks) af (Js ! J_i) = Inr (tcg_active g ! J_i)))"
proof -
  from assms obtain af act where af: "active_forward rst M blocks (transpose_pass blocks) pf = Inr af"
    and act: "(if pa then map_err (adjoint_pass blocks (transpose_pass blocks) af) Js
               else Inr (replicate (length Js) af)) = Inr act"
    and g: "tcg_active g = act"
    by (auto simp: TransposeComputationalGraph_def Let_def split: sum.splits)
  show ?thesis
  proof (cases pa)
    case True
    then have "map_err (adjoint_pass blocks (transpose_pass blocks) af) Js = Inr act" using act by simp
    then show ?thesis using map_err_Inr af g True by fastforce
  next
    case False
    then have "act = replicate (length Js) af" using act by simp
    then show ?thesis using af g by simp
  qed
qed

lemma tape_ex_prune:
  "tape ex_prune = [((0, 0), ex_eq2 0 [1] [1, 0]), ((0, 1), ex_instruction),
                    ((1, 0), ex_eq2 1 [2] [2, 1]), ((1, 1), ex_eq2 2 [5] [5, 4])]"
  by (simp add: tape_def ex_prune_def)

lemma ex_prune_produces:
  "(q, e) \<in> set (tape ex_prune) \<Longrightarrow> produces e v \<Longrightarrow>
   (q = (0, 0) \<and> v = 1) \<or> (q = (1, 0) \<and> v = 2) \<or> (q = (1, 1) \<and> v = 5)"
  unfolding tape_ex_prune produces_def
  by (auto simp: ex_eq2_def ex_var_def ex_instruction_def)

lemma ex_prune_dependencies:
  "((1, 1), e) \<in> set (tape ex_prune) \<Longrightarrow> v \<in> var_id ` set (eq_dependencies e) \<Longrightarrow> v = 5 \<or> v = 4"
  unfolding tape_ex_prune
  by (auto simp: ex_eq2_def ex_var_def ex_instruction_def)

lemma ex_unreachable: "\<not> reachable (tape ex_prune) (set (map var_id [ex_var 1])) (1, 1)"
proof
  assume "reachable (tape ex_prune) (set (map var_id [ex_var 1])) (1, 1)"
  then show False
  proof (cases rule: reachable.cases)
    case (control eq v)
    then have "v = 1" by (simp add: ex_var_def)
    then show False using ex_prune_produces [OF control(1) control(3)] by simp
  next
    case (dependency p)
    then obtain eq eq' v where c: "((1, 1), eq) \<in> set (tape ex_prune)"
      and p: "(p, eq') \<in> set (tape ex_prune)" and lt: "p < (1, 1)"
      and v: "v \<in> var_id ` set (eq_dependencies eq)" and pr: "produces eq' v"
      unfolding depends_on_def by blast
    have "v = 5 \<or> v = 4" using c v by (rule ex_prune_dependencies)
    then show False using ex_prune_produces [OF p pr] lt by auto
  qed
qed

section \<open>Claim C4\<close>

text \<open>
  C4. An instruction has no output (the class \<^verbatim>\<open>Instruction\<close> constructs its
  equation with no output and no dependency). With \<^verbatim>\<open>prune_forward=True\<close>, in the
  object that the constructor returns, \<^verbatim>\<open>is_active(J_i, n, i)\<close> returns \<^verbatim>\<open>False\<close>
  for every functional index and every equation of the tape that is not an instruction
  and is not reachable from the controls \<open>M\<close> in the forward dependency graph. With
  \<^verbatim>\<open>prune_forward=False\<close>, \<^verbatim>\<open>active_forward\<close> is \<^verbatim>\<open>True\<close> for every equation, and
  with \<^verbatim>\<open>prune_adjoint=False\<close> as well the constructor returns and \<^verbatim>\<open>is_active\<close>
  returns \<^verbatim>\<open>True\<close> for every equation and functional index.
\<close>

theorem forward_pruning_sound:
  "(TransposeComputationalGraph rst Js M blocks True prune_adjoint = Inr g
      \<and> (\<forall>q e. (q, e) \<in> set (tape blocks) \<and> eq_class e = Instruction \<longrightarrow> eq_X e = [])
      \<and> ((n, i), eq) \<in> set (tape blocks) \<and> eq_class eq \<noteq> Instruction
      \<and> \<not> reachable (tape blocks) (set (map var_id M)) (n, i) \<and> J_i < length Js
      \<longrightarrow> is_active g J_i n i = Inr False)
   \<and> active_forward rst M blocks (transpose_pass blocks) False = Inr (flags_full blocks True)
   \<and> (((n, i), eq) \<in> set (tape blocks) \<longrightarrow> flags_get (flags_full blocks True) n i = Inr True)
   \<and> (\<exists>g'. TransposeComputationalGraph rst Js M blocks False False = Inr g'
        \<and> (((n, i), eq) \<in> set (tape blocks) \<and> J_i < length Js \<longrightarrow> is_active g' J_i n i = Inr True))"
proof -
  have part1: "is_active g J_i n i = Inr False"
    if g: "TransposeComputationalGraph rst Js M blocks True prune_adjoint = Inr g"
      and instr: "\<forall>q e. (q, e) \<in> set (tape blocks) \<and> eq_class e = Instruction \<longrightarrow> eq_X e = []"
      and mem: "((n, i), eq) \<in> set (tape blocks)" and cls: "eq_class eq \<noteq> Instruction"
      and unreach: "\<not> reachable (tape blocks) (set (map var_id M)) (n, i)" and J: "J_i < length Js"
  proof -
    from TransposeComputationalGraph_active [OF g] obtain af where
      af: "active_forward rst M blocks (transpose_pass blocks) True = Inr af"
      and len: "length (tcg_active g) = length Js"
      and act: "tcg_active g ! J_i = af
           \<or> adjoint_pass blocks (transpose_pass blocks) af (Js ! J_i) = Inr (tcg_active g ! J_i)"
      using J by blast
    have shape: "flags_shape blocks af"
      and sound: "flags_get af n i = Inr True \<Longrightarrow>
        eq_class eq = Instruction \<or> reachable (tape blocks) (set (map var_id M)) (n, i)"
      using active_forward_sound [OF instr af] mem by blast+
    have not_af: "flags_get af n i \<noteq> Inr True" using sound cls unreach by blast
    have "flags_shape blocks (tcg_active g ! J_i) \<and> flags_get (tcg_active g ! J_i) n i \<noteq> Inr True"
      using act
    proof
      assume "tcg_active g ! J_i = af"
      then show ?thesis using shape not_af by simp
    next
      assume "adjoint_pass blocks (transpose_pass blocks) af (Js ! J_i) = Inr (tcg_active g ! J_i)"
      then show ?thesis using adjoint_pass_below [OF shape] not_af by blast
    qed
    moreover obtain b where "flags_get (tcg_active g ! J_i) n i = Inr b"
      using calculation flags_shape_get mem by blast
    ultimately have "flags_get (tcg_active g ! J_i) n i = Inr False" by (cases b) auto
    then show ?thesis using J len by (simp add: is_active_def)
  qed
  have part2: "active_forward rst M blocks (transpose_pass blocks) False = Inr (flags_full blocks True)"
    by (simp add: active_forward_def)
  have part3: "((n, i), eq) \<in> set (tape blocks) \<longrightarrow> flags_get (flags_full blocks True) n i = Inr True"
    using flags_full_get by blast
  let ?g' = "\<lparr>tcg_transpose_deps = transpose_pass blocks,
             tcg_active = replicate (length Js) (flags_full blocks True),
             tcg_solved = replicate (length Js) (flags_full blocks True)\<rparr>"
  have g': "TransposeComputationalGraph rst Js M blocks False False = Inr ?g'"
    by (simp add: TransposeComputationalGraph_def part2)
  have "((n, i), eq) \<in> set (tape blocks) \<and> J_i < length Js \<longrightarrow> is_active ?g' J_i n i = Inr True"
    using flags_full_get [of n i eq blocks True] by (simp add: is_active_def)
  then show ?thesis using part1 part2 part3 g' by blast
qed

theorem forward_pruning_sound_witness:
  "(\<exists>g. TransposeComputationalGraph (\<lambda>a b. b) [ex_var 2] [ex_var 1] ex_prune True True = Inr g
        \<and> is_active g 0 1 1 = Inr False)
   \<and> ((0, 1), ex_instruction) \<in> set (tape ex_prune)
   \<and> ((1, 1), ex_eq2 2 [5] [5, 4]) \<in> set (tape ex_prune)
   \<and> eq_class (ex_eq2 2 [5] [5, 4]) \<noteq> Instruction
   \<and> \<not> reachable (tape ex_prune) (set (map var_id [ex_var 1])) (1, 1)
   \<and> (\<exists>g'. TransposeComputationalGraph (\<lambda>a b. b) [ex_var 2] [ex_var 1] ex_prune False False = Inr g'
        \<and> is_active g' 0 1 1 = Inr True)"
proof -
  have ev: "(case TransposeComputationalGraph (\<lambda>a b. b) [ex_var 2] [ex_var 1] ex_prune True True of
      Inl e \<Rightarrow> False | Inr g \<Rightarrow> True)"
    by code_simp
  then obtain g where g: "TransposeComputationalGraph (\<lambda>a b. b) [ex_var 2] [ex_var 1] ex_prune True True = Inr g"
    by (cases "TransposeComputationalGraph (\<lambda>a b. b) [ex_var 2] [ex_var 1] ex_prune True True") simp_all
  have instr: "\<forall>q e. (q, e) \<in> set (tape ex_prune) \<and> eq_class e = Instruction \<longrightarrow> eq_X e = []"
    by (auto simp: tape_ex_prune ex_eq2_def ex_instruction_def)
  have mem: "((1, 1), ex_eq2 2 [5] [5, 4]) \<in> set (tape ex_prune)" by (simp add: tape_ex_prune)
  have cls: "eq_class (ex_eq2 2 [5] [5, 4]) \<noteq> Instruction" by (simp add: ex_eq2_def)
  have mem2: "((0, 1), ex_instruction) \<in> set (tape ex_prune)" by (simp add: tape_ex_prune)
  have J: "(0::nat) < length [ex_var 2]" by simp
  show ?thesis
    using forward_pruning_sound
            [where rst = "\<lambda>a b. b" and Js = "[ex_var 2]" and M = "[ex_var 1]" and blocks = ex_prune
               and prune_adjoint = True and g = g and n = 1 and i = 1
               and eq = "ex_eq2 2 [5] [5, 4]" and J_i = 0]
          g instr mem mem2 cls ex_unreachable J
    by blast
qed

end
